theory Spec2Isabelle
  imports Complex_Main "HOL-Library.Multiset"
begin

section \<open>Python values used by benchmark.py\<close>

subsection \<open>Floats\<close>

text \<open>
  A finite Python float is a rational number, so latencies, clock readings and statistics
  are values of type \<open>rat\<close>. Comparison, \<open>sorted\<close>, \<open>min\<close> and \<open>max\<close> are exact on
  floats. An arithmetic operation returns the exact result rounded to the nearest float
  (binary64: 53 significant bits, ties to the even significand); \<open>fl\<close> is that rounding.
  The exponent range is not modelled: there is no overflow, no subnormal number, no
  infinity and no NaN. In particular a rounded quotient is zero only when its numerator
  is, whereas in binary64 a quotient below the smallest subnormal number is 0.0: the
  model agrees with the program on values that stay within the range of the normal
  floats, and every concrete input below does.
\<close>

definition rne :: "rat \<Rightarrow> int" where
  \<comment> \<open>nearest integer, a tie going to the even one\<close>
  "rne x = (let f = \<lfloor>x\<rfloor>; r = x - of_int f
            in if r < 1/2 then f else if 1/2 < r then f + 1
               else if even f then f else f + 1)"

function bitlen :: "int \<Rightarrow> nat" where
  \<comment> \<open>number of binary digits of a positive integer\<close>
  "bitlen n = (if n \<le> 0 then 0 else Suc (bitlen (n div 2)))"
  by pat_completeness auto
termination
  by (relation "measure nat") auto

declare bitlen.simps [simp del]

definition ilog2 :: "rat \<Rightarrow> int" where
  \<comment> \<open>the binary exponent of a positive rational: \<open>2 powi ilog2 x \<le> x < 2 powi (ilog2 x + 1)\<close>\<close>
  "ilog2 x = (case quotient_of x of (p, q) \<Rightarrow>
     (let d = int (bitlen p) - int (bitlen q)
      in if 2 powi d \<le> x then d else d - 1))"

definition fl :: "rat \<Rightarrow> rat" where
  "fl x = (if x = 0 then 0
           else (let e = ilog2 \<bar>x\<bar> - 52
                 in sgn x * of_int (rne (\<bar>x\<bar> / 2 powi e)) * 2 powi e))"

subsection \<open>Exceptions and builtins\<close>

datatype py_exception = ZeroDivisionError | IndexError | ValueError | StatisticsError

definition exc_bind :: "py_exception + 'a \<Rightarrow> ('a \<Rightarrow> py_exception + 'b) \<Rightarrow> py_exception + 'b" where
  \<comment> \<open>evaluate the first expression; an exception it raises ends the computation\<close>
  "exc_bind m f = (case m of Inl e \<Rightarrow> Inl e | Inr v \<Rightarrow> f v)"

definition py_truediv :: "rat \<Rightarrow> rat \<Rightarrow> py_exception + rat" where
  \<comment> \<open>\<open>a / b\<close> on floats (an int operand is converted first)\<close>
  "py_truediv a b = (if b = 0 then Inl ZeroDivisionError else Inr (fl (a / b)))"

definition py_sum :: "rat list \<Rightarrow> rat" where
  \<comment> \<open>\<open>sum(xs)\<close> on floats: start from 0 and add from left to right, rounding every
      partial sum (CPython before 3.12). \<open>calculate_stats\<close> is modelled with this sum.\<close>
  "py_sum xs = foldl (\<lambda>acc x. fl (acc + x)) 0 xs"

definition py_sum_compensated :: "rat list \<Rightarrow> rat" where
  \<comment> \<open>\<open>sum(xs)\<close> on floats in CPython 3.12 and later: the partial sums are rounded as
      before, and the rounding errors are added up in a second float, which is added to
      the total at the end (Neumaier's summation)\<close>
  "py_sum_compensated xs =
     (case xs of
        [] \<Rightarrow> 0
      | x # rest \<Rightarrow>
          (case foldl (\<lambda>(hi, lo) x.
                   let t = fl (hi + x);
                       c = (if \<bar>x\<bar> \<le> \<bar>hi\<bar> then fl (fl (hi - t) + x)
                            else fl (fl (x - t) + hi))
                   in (t, fl (lo + c))) (fl (0 + x), 0) rest of
             (hi, lo) \<Rightarrow> if lo \<noteq> 0 then fl (hi + lo) else hi))"

fun py_min :: "rat list \<Rightarrow> py_exception + rat" where
  "py_min [] = Inl ValueError"
| "py_min (x # xs) = Inr (fold min xs x)"

fun py_max :: "rat list \<Rightarrow> py_exception + rat" where
  "py_max [] = Inl ValueError"
| "py_max (x # xs) = Inr (fold max xs x)"

definition py_mean :: "rat list \<Rightarrow> py_exception + rat" where
  \<comment> \<open>\<open>statistics.mean\<close>: the exact sum of the data divided by their number, rounded once\<close>
  "py_mean xs = (if xs = [] then Inl StatisticsError
                 else Inr (fl (sum_list xs / of_nat (length xs))))"

definition py_getitem :: "'a list \<Rightarrow> int \<Rightarrow> py_exception + 'a" where
  \<comment> \<open>\<open>xs[i]\<close>: an index below zero is taken from the end of the list\<close>
  "py_getitem xs i =
     (let k = (if i < 0 then i + int (length xs) else i)
      in if k < 0 \<or> int (length xs) \<le> k then Inl IndexError else Inr (xs ! nat k))"

definition int_of_product :: "nat \<Rightarrow> rat \<Rightarrow> int" where
  \<comment> \<open>\<open>int(n * p)\<close> for a list length \<open>n\<close> and a fraction \<open>p\<close>: the integer part of the
      product. The product is taken exactly here; for the fractions 0.50, 0.95 and 0.99
      and a length below \<open>2 ^ 40\<close> the product of floats, rounded, has the same integer
      part (lemmas \<open>float_index_50\<close>, \<open>float_index_95\<close>, \<open>float_index_99\<close>).\<close>
  "int_of_product n p = \<lfloor>of_nat n * p\<rfloor>"

function str_nat :: "nat \<Rightarrow> string" where
  \<comment> \<open>decimal digits of a natural number\<close>
  "str_nat n = (if n < 10 then [char_of (48 + n)]
                else str_nat (n div 10) @ [char_of (48 + n mod 10)])"
  by pat_completeness auto
termination
  by (relation "measure id") auto

declare str_nat.simps [simp del]

definition str_int :: "int \<Rightarrow> string" where
  \<comment> \<open>\<open>str(i)\<close>, which an f-string applies to an int\<close>
  "str_int i = (if i < 0 then CHR ''-'' # str_nat (nat (- i)) else str_nat (nat i))"

section \<open>Request Executor: \<open>make_request\<close>\<close>

record RequestResult =
  latency_ms :: rat
  success :: bool
  error :: "string option"

text \<open>
  What awaiting \<open>client.post\<close> does is the environment's choice: it returns a response
  with a status code, or it raises an \<open>Exception\<close> \<open>e\<close> (transport error, timeout,
  protocol error), of which only \<open>str(e)\<close> is used. The two readings of
  \<open>time.perf_counter()\<close> are inputs as well.
\<close>

datatype post_outcome = Response int | Raised string

definition succeeded :: "rat \<Rightarrow> RequestResult" where
  \<comment> \<open>\<open>RequestResult(latency_ms=latency, success=True)\<close>\<close>
  "succeeded latency = \<lparr>latency_ms = latency, success = True, error = None\<rparr>"

definition failed :: "rat \<Rightarrow> string \<Rightarrow> RequestResult" where
  \<comment> \<open>\<open>RequestResult(latency_ms=latency, success=False, error=msg)\<close>\<close>
  "failed latency msg = \<lparr>latency_ms = latency, success = False, error = Some msg\<rparr>"

definition elapsed_ms :: "rat \<Rightarrow> rat \<Rightarrow> rat" where
  \<comment> \<open>\<open>(time.perf_counter() - start) * 1000\<close>\<close>
  "elapsed_ms start now = fl (fl (now - start) * 1000)"

definition try_block :: "rat \<Rightarrow> post_outcome \<Rightarrow> rat \<Rightarrow> string + RequestResult" where
  \<comment> \<open>the body of \<open>try\<close>; \<open>Inl msg\<close> is an exception leaving the body\<close>
  "try_block start outcome now =
     (case outcome of
        Raised msg \<Rightarrow> Inl msg
      | Response status_code \<Rightarrow>
          (let latency = elapsed_ms start now
           in if status_code = 200
              then Inr \<lparr>latency_ms = latency, success = True, error = None\<rparr>
              else Inr \<lparr>latency_ms = latency, success = False,
                        error = Some (''HTTP '' @ str_int status_code)\<rparr>))"

definition make_request :: "rat \<Rightarrow> post_outcome \<Rightarrow> rat \<Rightarrow> RequestResult" where
  \<comment> \<open>\<open>except Exception as e\<close> turns every exception of the body into a result\<close>
  "make_request start outcome now =
     (case try_block start outcome now of
        Inr r \<Rightarrow> r
      | Inl msg \<Rightarrow> \<lparr>latency_ms = elapsed_ms start now, success = False, error = Some msg\<rparr>)"

definition spec_success_status :: "int \<Rightarrow> bool" where
  \<comment> \<open>the specification's word for a successful response: a 2xx status
      (its error taxonomy calls the failures "non-2xx HTTP responses")\<close>
  "spec_success_status status_code \<longleftrightarrow> 200 \<le> status_code \<and> status_code < 300"

section \<open>Statistics Engine: \<open>calculate_stats\<close>\<close>

record RunStatistics =
  stat_total :: int
  stat_success :: int
  stat_errors :: int
  stat_min :: rat
  stat_max :: rat
  stat_avg :: rat
  stat_p50 :: rat
  stat_p95 :: rat
  stat_p99 :: rat
  stat_throughput :: rat

text \<open>
  The returned dict has either the single key \<open>"error"\<close> or the ten numeric keys.
\<close>

datatype stats_dict = Error_dict string | Stats_dict RunStatistics

definition successful_of :: "RequestResult list \<Rightarrow> RequestResult list" where
  "successful_of rs = filter success rs"

definition latencies_of :: "RequestResult list \<Rightarrow> rat list" where
  "latencies_of rs = map latency_ms (successful_of rs)"

definition calculate_stats :: "RequestResult list \<Rightarrow> py_exception + stats_dict" where
  "calculate_stats rs =
     (let successful = successful_of rs;
          latencies = latencies_of rs
      in if latencies = [] then Inr (Error_dict ''No successful requests'')
         else
           (let sorted_latencies = sort latencies;
                n = length sorted_latencies
            in exc_bind (py_min latencies) (\<lambda>v_min.
               exc_bind (py_max latencies) (\<lambda>v_max.
               exc_bind (py_mean latencies) (\<lambda>v_avg.
               exc_bind (py_getitem sorted_latencies (int_of_product n (50/100))) (\<lambda>v_p50.
               exc_bind (if 20 \<le> n then py_getitem sorted_latencies (int_of_product n (95/100))
                         else py_getitem sorted_latencies (- 1)) (\<lambda>v_p95.
               exc_bind (if 100 \<le> n then py_getitem sorted_latencies (int_of_product n (99/100))
                         else py_getitem sorted_latencies (- 1)) (\<lambda>v_p99.
               exc_bind (if latencies \<noteq> []
                         then exc_bind (py_truediv (py_sum latencies) 1000)
                                (\<lambda>seconds. py_truediv (of_nat (length successful)) seconds)
                         else Inr 0) (\<lambda>v_throughput.
               Inr (Stats_dict
                 \<lparr>stat_total = int (length rs),
                  stat_success = int (length successful),
                  stat_errors = int (length rs) - int (length successful),
                  stat_min = v_min, stat_max = v_max, stat_avg = v_avg,
                  stat_p50 = v_p50, stat_p95 = v_p95, stat_p99 = v_p99,
                  stat_throughput = v_throughput\<rparr>))))))))))"

section \<open>Ramp sweep summary: \<open>run_ramp_test\<close>\<close>

text \<open>
  Each stage's dict gets the key \<open>"concurrency"\<close>; the summary loop reads that key,
  \<open>"error"\<close> and \<open>"p99"\<close>. The loop prints the breaking point and the recommended
  maximum at the first stage that has statistics and a p99 of at least 800, and its
  \<open>else\<close> branch prints that all tests passed.
\<close>

record stage =
  level :: int
  stage_stats :: stats_dict

datatype ramp_summary = Breaking_point int int | All_passed

fun find_breaking_point :: "stage list \<Rightarrow> ramp_summary" where
  "find_breaking_point [] = All_passed"
| "find_breaking_point (s # rest) =
     (case stage_stats s of
        Error_dict _ \<Rightarrow> find_breaking_point rest
      | Stats_dict st \<Rightarrow>
          if 800 \<le> stat_p99 st then Breaking_point (level s) (level s - 10)
          else find_breaking_point rest)"

definition crosses :: "stage \<Rightarrow> bool" where
  \<comment> \<open>the loop's test: \<open>"error" not in s and s["p99"] >= 800\<close>\<close>
  "crosses s = (case stage_stats s of Error_dict _ \<Rightarrow> False | Stats_dict st \<Rightarrow> 800 \<le> stat_p99 st)"

definition ramp_levels :: "int list" where
  "ramp_levels = [10, 20, 30, 40, 50]"

fun collect_stages :: "(int \<times> RequestResult list) list \<Rightarrow> py_exception + stage list" where
  \<comment> \<open>the first loop: \<open>stats = calculate_stats(results)\<close>, \<open>stats["concurrency"] = concurrency\<close>,
      \<open>all_stats.append(stats)\<close>; an exception of \<open>calculate_stats\<close> ends the sweep\<close>
  "collect_stages [] = Inr []"
| "collect_stages ((concurrency, rs) # rest) =
     exc_bind (calculate_stats rs) (\<lambda>stats.
     exc_bind (collect_stages rest) (\<lambda>all_stats.
     Inr (\<lparr>level = concurrency, stage_stats = stats\<rparr> # all_stats)))"

definition run_ramp_test :: "RequestResult list list \<Rightarrow> py_exception + ramp_summary" where
  \<comment> \<open>the argument holds, stage by stage, the results that \<open>test_concurrent\<close> returned\<close>
  "run_ramp_test results_per_stage =
     exc_bind (collect_stages (zip ramp_levels results_per_stage)) (\<lambda>all_stats.
     Inr (find_breaking_point all_stats))"

definition synthetic_stage :: "int \<Rightarrow> rat \<Rightarrow> stage" where
  \<comment> \<open>a stage whose requests all succeeded with the same latency\<close>
  "synthetic_stage concurrency latency =
     \<lparr>level = concurrency,
      stage_stats = Stats_dict
        \<lparr>stat_total = concurrency * 5, stat_success = concurrency * 5, stat_errors = 0,
         stat_min = latency, stat_max = latency, stat_avg = latency,
         stat_p50 = latency, stat_p95 = latency, stat_p99 = latency,
         stat_throughput = fl (1 / fl (latency / 1000))\<rparr>\<rparr>"

section \<open>Scenario drivers: \<open>test_single_request\<close> and \<open>test_concurrent\<close>\<close>

definition TEST_SENTENCES :: "string list" where
  "TEST_SENTENCES =
    [''I cant beleive how much this extention has helped me with my writting.'',
     ''Its been a lifesaver for my dayly work and comunication.'',
     ''I use to make alot of mistakes but now im more confidant.'',
     ''Thier going to be suprised when they see the improvment.'',
     ''This sentance has a few erors that need to be fixed.'',
     ''The wether is beautifull today and I want to go outsde.'',
     ''Please recieve this messge and respond as soon as posible.'',
     ''I definitly recomend this tool to anyone who writes alot.'',
     ''Your absolutly right about that, I totaly agree with you.'',
     ''Lets schedul a meeting for tommorow afternoon if your availible.'']"

text \<open>
  The environment of a run tells, for the \<open>i\<close>-th request and its sentence, the clock
  reading before the call, what the call does and the clock reading after it.
\<close>

type_synonym environment = "nat \<Rightarrow> string \<Rightarrow> rat \<times> post_outcome \<times> rat"

definition steady_environment :: environment where
  \<comment> \<open>an example: every call takes a quarter of a second and is answered with status 200\<close>
  "steady_environment i sentence = (0, Response 200, 1/4)"

definition request :: "environment \<Rightarrow> nat \<Rightarrow> RequestResult" where
  \<comment> \<open>\<open>sentence = TEST_SENTENCES[i % len(TEST_SENTENCES)]\<close>, then \<open>make_request(client, sentence)\<close>\<close>
  "request env i =
     (case env i (TEST_SENTENCES ! (i mod length TEST_SENTENCES)) of
        (start, outcome, now) \<Rightarrow> make_request start outcome now)"

definition test_single_request :: "environment \<Rightarrow> RequestResult list" where
  "test_single_request env = map (request env) [0..<5]"

text \<open>
  \<open>test_concurrent\<close> creates one coroutine per request, all sharing
  \<open>asyncio.Semaphore(concurrency)\<close>; each coroutine runs
  \<open>async with semaphore: return await make_request(client, sentence)\<close>, and the driver
  appends the results as they complete. A state of the run lists the coroutines that
  have not entered the \<open>async with\<close> block yet, those inside it, and those that have
  returned, in completion order, together with the value of the semaphore. A coroutine
  enters the block only when the value is positive and decrements it; leaving the block
  increments it. Since \<open>make_request\<close> always returns, a coroutine inside the block can
  always leave it.
\<close>

record run_state =
  waiting :: "nat list"
  in_flight :: "nat list"
  completed :: "nat list"
  permits :: nat

definition start_state :: "nat \<Rightarrow> nat \<Rightarrow> run_state" where
  "start_state concurrency n_requests =
     \<lparr>waiting = [0..<n_requests], in_flight = [], completed = [], permits = concurrency\<rparr>"

definition test_concurrent_start :: "int \<Rightarrow> int option \<Rightarrow> py_exception + run_state" where
  \<comment> \<open>\<open>def test_concurrent(concurrency: int, total_requests: int = 50)\<close> up to the creation
      of the tasks; \<open>asyncio.Semaphore\<close> raises \<open>ValueError\<close> for a negative value\<close>
  "test_concurrent_start concurrency total_requests =
     (let n_requests = (case total_requests of None \<Rightarrow> 50 | Some n \<Rightarrow> n)
      in if concurrency < 0 then Inl ValueError
         else Inr (start_state (nat concurrency) (nat n_requests)))"

inductive step :: "run_state \<Rightarrow> run_state \<Rightarrow> bool" where
  acquire: "i \<in> set (waiting s) \<Longrightarrow> 0 < permits s \<Longrightarrow>
     step s (s\<lparr>waiting := remove1 i (waiting s), in_flight := i # in_flight s,
               permits := permits s - 1\<rparr>)"
| release: "i \<in> set (in_flight s) \<Longrightarrow>
     step s (s\<lparr>in_flight := remove1 i (in_flight s), completed := completed s @ [i],
               permits := permits s + 1\<rparr>)"

inductive steps :: "nat \<Rightarrow> run_state \<Rightarrow> run_state \<Rightarrow> bool" where
  \<comment> \<open>\<open>steps k s s'\<close>: the run goes from \<open>s\<close> to \<open>s'\<close> in \<open>k\<close> steps\<close>
  no_step: "steps 0 s s"
| one_more: "steps k s s' \<Longrightarrow> step s' s'' \<Longrightarrow> steps (Suc k) s s''"

definition run_invariant :: "nat \<Rightarrow> nat \<Rightarrow> nat \<Rightarrow> run_state \<Rightarrow> bool" where
  \<comment> \<open>what holds after \<open>k\<close> steps of a run of \<open>n\<close> requests under a semaphore of value \<open>c\<close>\<close>
  "run_invariant c n k s \<longleftrightarrow>
     permits s + length (in_flight s) = c
     \<and> mset (waiting s) + mset (in_flight s) + mset (completed s) = mset [0..<n]
     \<and> 2 * length (waiting s) + length (in_flight s) + k = 2 * n"

definition results_of :: "environment \<Rightarrow> run_state \<Rightarrow> RequestResult list" where
  \<comment> \<open>the list \<open>results\<close> of the driver\<close>
  "results_of env s = map (request env) (completed s)"

definition main_concurrent :: "int \<Rightarrow> py_exception + run_state" where
  \<comment> \<open>the branch \<open>elif args.concurrent:\<close> of \<open>main\<close>, taken for \<open>--concurrent C\<close> with C not 0:
      \<open>test_concurrent(args.concurrent, total_requests=args.concurrent * 5)\<close>\<close>
  "main_concurrent c = test_concurrent_start c (Some (c * 5))"

definition ramp_stage_start :: "int \<Rightarrow> py_exception + run_state" where
  \<comment> \<open>\<open>run_ramp_test\<close>: \<open>test_concurrent(concurrency, total_requests=concurrency * 5)\<close>\<close>
  "ramp_stage_start concurrency = test_concurrent_start concurrency (Some (concurrency * 5))"

section \<open>Properties of the float rounding\<close>

lemma bitlen_bounds: "0 < n \<Longrightarrow> 2 ^ bitlen n \<le> 2 * n \<and> n < 2 ^ bitlen n"
proof (induction n rule: bitlen.induct)
  case (1 n)
  show ?case
  proof (cases "n div 2 = 0")
    case True
    with "1.prems" have "n = 1" by presburger
    then show ?thesis by (simp add: bitlen.simps)
  next
    case False
    with "1.prems" have pos: "0 < n div 2" by presburger
    from "1.IH" "1.prems" pos
    have ih: "2 ^ bitlen (n div 2) \<le> 2 * (n div 2)" "n div 2 < 2 ^ bitlen (n div 2)"
      by auto
    have eq: "bitlen n = Suc (bitlen (n div 2))"
      using "1.prems" by (subst bitlen.simps) simp
    from ih show ?thesis unfolding eq by (simp; presburger)
  qed
qed

lemma rne_bounds: "\<bar>of_int (rne y) - y\<bar> \<le> 1/2"
proof -
  have "of_int \<lfloor>y\<rfloor> \<le> y" "y < of_int \<lfloor>y\<rfloor> + 1" by linarith+
  then show ?thesis unfolding rne_def Let_def by (auto simp: abs_le_iff)
qed

lemma rne_of_int [simp]: "rne (of_int k) = k"
  by (simp add: rne_def)

lemma rne_range: "\<lfloor>y\<rfloor> \<le> rne y \<and> rne y \<le> \<lfloor>y\<rfloor> + 1"
  unfolding rne_def Let_def by auto

lemma rne_mono: "x \<le> y \<Longrightarrow> rne x \<le> rne y"
proof -
  assume xy: "x \<le> y"
  then have "\<lfloor>x\<rfloor> \<le> \<lfloor>y\<rfloor>" by (rule floor_mono)
  then consider "\<lfloor>x\<rfloor> = \<lfloor>y\<rfloor>" | "\<lfloor>x\<rfloor> + 1 \<le> \<lfloor>y\<rfloor>" by linarith
  then show ?thesis
  proof cases
    case 1
    with xy show ?thesis unfolding rne_def Let_def by auto
  next
    case 2
    with rne_range[of x] rne_range[of y] show ?thesis by linarith
  qed
qed

lemma ilog2_bounds:
  assumes "0 < x"
  shows "2 powi ilog2 x \<le> x \<and> x < 2 powi (ilog2 x + 1)"
proof -
  obtain p q where pq: "quotient_of x = (p, q)" by (cases "quotient_of x")
  have qpos: "0 < q" using pq by (rule quotient_of_denom_pos)
  have xeq: "x = of_int p / of_int q" using pq by (rule quotient_of_div)
  have ppos: "0 < p" using assms qpos unfolding xeq by (simp add: zero_less_divide_iff)
  define a b where "a = bitlen p" and "b = bitlen q"
  define d where "d = int a - int b"
  from bitlen_bounds[OF ppos] have pa: "(2::rat) ^ a \<le> 2 * of_int p" "(of_int p :: rat) < 2 ^ a"
    unfolding a_def
    by (metis of_int_le_iff of_int_mult of_int_numeral of_int_power, metis of_int_less_iff of_int_numeral of_int_power)
  from bitlen_bounds[OF qpos] have qb: "(2::rat) ^ b \<le> 2 * of_int q" "(of_int q :: rat) < 2 ^ b"
    unfolding b_def
    by (metis of_int_le_iff of_int_mult of_int_numeral of_int_power, metis of_int_less_iff of_int_numeral of_int_power)
  have Q: "(0::rat) < of_int q" using qpos by simp
  have d0: "(2::rat) powi d = 2 ^ a / 2 ^ b"
    unfolding d_def by (simp add: power_int_diff)
  have d1: "(2::rat) powi (d + 1) = 2 * 2 ^ a / 2 ^ b"
    using d0 by (simp add: power_int_add)
  have dm: "(2::rat) powi (d - 1) = 2 ^ a / (2 * 2 ^ b)"
    using d0 by (simp add: power_int_diff)
  have P: "(0::rat) < of_int p" using ppos by simp
  have "of_int p * (2::rat) ^ b < 2 ^ a * 2 ^ b"
    using pa(2) by (simp add: mult_strict_right_mono)
  also have "\<dots> \<le> 2 ^ a * (2 * of_int q)"
    using qb(1) by (simp add: mult_left_mono)
  finally have "of_int p * (2::rat) ^ b < 2 * 2 ^ a * of_int q" by simp
  then have up: "x < 2 powi (d + 1)"
    unfolding xeq d1 using Q by (simp add: field_simps)
  have "(2::rat) ^ a * of_int q \<le> 2 * of_int p * of_int q"
    using pa(1) Q by (simp add: mult_right_mono)
  also have "\<dots> < 2 * of_int p * 2 ^ b"
    using qb(2) P by (simp add: mult_strict_left_mono)
  finally have "(2::rat) ^ a * of_int q < of_int p * (2 * 2 ^ b)" by simp
  then have lo: "2 powi (d - 1) < x"
    unfolding xeq dm using Q by (simp add: field_simps)
  have il: "ilog2 x = (if 2 powi d \<le> x then d else d - 1)"
    unfolding ilog2_def pq d_def a_def b_def by (simp add: Let_def)
  show ?thesis
  proof (cases "2 powi d \<le> x")
    case True
    then show ?thesis using up il by simp
  next
    case False
    then show ?thesis using lo il by simp
  qed
qed


lemma fl_pos: "0 < x \<Longrightarrow> fl x = of_int (rne (x / 2 powi (ilog2 x - 52))) * 2 powi (ilog2 x - 52)"
  by (simp add: fl_def Let_def)

lemma fl_minus: "fl (- x) = - fl x"
  by (simp add: fl_def Let_def sgn_minus)

lemma fl_zero [simp]: "fl 0 = 0"
  by (simp add: fl_def)

lemma fl_pos_bounds:
  assumes "0 < x"
  shows "2 powi ilog2 x \<le> fl x \<and> fl x \<le> 2 powi (ilog2 x + 1)"
proof -
  define e where "e = ilog2 x - 52"
  define m where "m = x / 2 powi e"
  have pe: "(0::rat) < 2 powi e" by simp
  have lo: "2 powi ilog2 x = (2::rat) ^ 52 * 2 powi e"
    unfolding e_def by (simp add: power_int_diff)
  have hi: "2 powi (ilog2 x + 1) = (2::rat) ^ 53 * 2 powi e"
    unfolding e_def by (simp add: power_int_diff power_int_add)
  from ilog2_bounds[OF assms] have "2 ^ 52 * 2 powi e \<le> x" "x \<le> 2 ^ 53 * 2 powi e"
    unfolding lo hi by simp_all
  then have m: "of_int (2 ^ 52) \<le> m" "m \<le> of_int (2 ^ 53)"
    unfolding m_def using pe by (simp_all add: field_simps)
  have "2 ^ 52 \<le> rne m" "rne m \<le> 2 ^ 53"
    using rne_mono[OF m(1)] rne_mono[OF m(2)] by (simp_all only: rne_of_int)
  then have "(2::rat) ^ 52 \<le> of_int (rne m)" "of_int (rne m) \<le> (2::rat) ^ 53"
    by (metis of_int_le_iff of_int_numeral of_int_power)+
  then have "(2::rat) ^ 52 * 2 powi e \<le> of_int (rne m) * 2 powi e"
    "(of_int (rne m) :: rat) * 2 powi e \<le> 2 ^ 53 * 2 powi e"
    using pe by (simp_all only: mult_le_cancel_right_pos)
  then show ?thesis
    unfolding lo hi fl_pos[OF assms] m_def e_def by simp
qed

lemma fl_pos_pos: "0 < x \<Longrightarrow> 0 < fl x"
proof -
  assume "0 < x"
  from fl_pos_bounds[OF this] have "2 powi ilog2 x \<le> fl x" by simp
  moreover have "(0::rat) < 2 powi ilog2 x" by simp
  ultimately show ?thesis by linarith
qed

lemma fl_eq_0_iff [simp]: "fl x = 0 \<longleftrightarrow> x = 0"
proof (cases "0 < x")
  case True
  with fl_pos_pos[of x] show ?thesis by simp
next
  case False
  show ?thesis
  proof (cases "x = 0")
    case True
    then show ?thesis by simp
  next
    case False
    with \<open>\<not> 0 < x\<close> have "0 < - x" by simp
    from fl_pos_pos[OF this] have "fl x < 0" by (simp add: fl_minus)
    with False show ?thesis by simp
  qed
qed

lemma ilog2_mono:
  assumes "0 < x" "x \<le> y"
  shows "ilog2 x \<le> ilog2 y"
proof (rule ccontr)
  assume "\<not> ilog2 x \<le> ilog2 y"
  then have "ilog2 y + 1 \<le> ilog2 x" by simp
  then have "(2::rat) powi (ilog2 y + 1) \<le> 2 powi ilog2 x"
    by (intro power_int_increasing) simp_all
  moreover have "y < 2 powi (ilog2 y + 1)" using ilog2_bounds[of y] assms by simp
  moreover have "2 powi ilog2 x \<le> x" using ilog2_bounds[of x] assms by simp
  ultimately show False using assms by linarith
qed

lemma fl_mono_pos:
  assumes "0 < x" "x \<le> y"
  shows "fl x \<le> fl y"
proof -
  have ypos: "0 < y" using assms by simp
  from ilog2_mono[OF assms] consider "ilog2 x = ilog2 y" | "ilog2 x + 1 \<le> ilog2 y" by linarith
  then show ?thesis
  proof cases
    case 1
    have "x / 2 powi (ilog2 y - 52) \<le> y / 2 powi (ilog2 y - 52)"
      using assms by (simp add: divide_right_mono)
    then have "rne (x / 2 powi (ilog2 y - 52)) \<le> rne (y / 2 powi (ilog2 y - 52))"
      by (rule rne_mono)
    then have "(of_int (rne (x / 2 powi (ilog2 y - 52))) :: rat) \<le> of_int (rne (y / 2 powi (ilog2 y - 52)))"
      by simp
    then show ?thesis
      unfolding fl_pos[OF assms(1)] fl_pos[OF ypos] 1 by (simp add: mult_right_mono)
  next
    case 2
    have "fl x \<le> 2 powi (ilog2 x + 1)" using fl_pos_bounds[OF assms(1)] by simp
    also have "\<dots> \<le> 2 powi ilog2 y" using 2 by (intro power_int_increasing) simp_all
    also have "\<dots> \<le> fl y" using fl_pos_bounds[OF ypos] by simp
    finally show ?thesis .
  qed
qed

lemma fl_mono:
  assumes "x \<le> y"
  shows "fl x \<le> fl y"
proof -
  consider "0 < x" | "x = 0" | "x < 0" "0 \<le> y" | "x < 0" "y < 0" by linarith
  then show ?thesis
  proof cases
    case 1
    then show ?thesis using assms by (rule fl_mono_pos)
  next
    case 2
    show ?thesis
    proof (cases "y = 0")
      case True
      then show ?thesis using 2 by simp
    next
      case False
      then have "0 < y" using assms 2 by simp
      from fl_pos_pos[OF this] show ?thesis using 2 by simp
    qed
  next
    case 3
    then have "0 < - x" by simp
    from fl_pos_pos[OF this] have a: "fl x < 0" by (simp add: fl_minus)
    have "0 \<le> fl y"
    proof (cases "y = 0")
      case True
      then show ?thesis by simp
    next
      case False
      then have "0 < y" using 3 by simp
      from fl_pos_pos[OF this] show ?thesis by simp
    qed
    with a show ?thesis by simp
  next
    case 4
    then have "0 < - y" "- y \<le> - x" using assms by simp_all
    from fl_mono_pos[OF this] show ?thesis by (simp add: fl_minus)
  qed
qed

lemma ilog2_eqI:
  assumes "2 powi k \<le> x" "x < 2 powi (k + 1)"
  shows "ilog2 x = k"
proof -
  have pos: "0 < x" using assms(1) by (rule less_le_trans [rotated]) simp
  note b = ilog2_bounds [OF pos]
  have "\<not> k + 1 \<le> ilog2 x"
  proof
    assume "k + 1 \<le> ilog2 x"
    then have "(2::rat) powi (k + 1) \<le> 2 powi ilog2 x"
      by (intro power_int_increasing) simp_all
    with b assms(2) show False by linarith
  qed
  moreover have "\<not> ilog2 x + 1 \<le> k"
  proof
    assume "ilog2 x + 1 \<le> k"
    then have "(2::rat) powi (ilog2 x + 1) \<le> 2 powi k"
      by (intro power_int_increasing) simp_all
    with b assms(1) show False by linarith
  qed
  ultimately show ?thesis by linarith
qed

lemma rne_eqI:
  assumes "\<bar>y - of_int m\<bar> < 1/2"
  shows "rne y = m"
proof -
  have "\<bar>of_int (rne y) - y\<bar> \<le> 1/2" by (rule rne_bounds)
  with assms have "\<bar>(of_int (rne y) :: rat) - of_int m\<bar> < 1" by linarith
  then have "\<bar>(of_int (rne y - m) :: rat)\<bar> < 1" by simp
  then have "\<bar>rne y - m\<bar> < 1"
    by (metis of_int_abs of_int_less_1_iff)
  then show ?thesis by linarith
qed

lemma rne_nearest:
  assumes "\<bar>y - of_int m\<bar> < 1/2 \<or> (\<bar>y - of_int m\<bar> = 1/2 \<and> even m)"
  shows "rne y = m"
proof -
  consider "\<bar>y - of_int m\<bar> < 1/2" | "y = of_int m + 1/2" "even m" | "y = of_int m - 1/2" "even m"
    using assms by (auto simp: abs_if split: if_splits)
  then show ?thesis
  proof cases
    case 1
    then show ?thesis by (rule rne_eqI)
  next
    case 2
    have "\<lfloor>y\<rfloor> = m" unfolding 2(1) by linarith
    then show ?thesis using 2 by (simp add: rne_def)
  next
    case 3
    have f: "\<lfloor>y\<rfloor> = m - 1" unfolding 3(1) by linarith
    have "odd (m - 1)" using 3(2) by simp
    then show ?thesis unfolding rne_def f Let_def using 3(1) by simp
  qed
qed

lemma fl_evalI:
  assumes "2 ^ 52 \<le> x * 2 ^ j" "x * 2 ^ j < 2 ^ 53"
    and "\<bar>x * 2 ^ j - of_int m\<bar> < 1/2 \<or> (\<bar>x * 2 ^ j - of_int m\<bar> = 1/2 \<and> even m)"
  shows "fl x = of_int m / 2 ^ j"
proof -
  have pj: "(0::rat) < 2 ^ j" by simp
  have pos: "0 < x"
  proof (rule ccontr)
    assume "\<not> 0 < x"
    then have "x * 2 ^ j \<le> 0" using pj by (simp add: mult_le_0_iff)
    with assms(1) show False by simp
  qed
  have e0: "(2::rat) powi (52 - int j) = 2 ^ 52 / 2 ^ j"
    by (simp add: power_int_diff)
  have e1: "(2::rat) powi (52 - int j + 1) = 2 ^ 53 / 2 ^ j"
    by (simp add: power_int_diff power_int_add)
  have "ilog2 x = 52 - int j"
  proof (rule ilog2_eqI)
    show "2 powi (52 - int j) \<le> x"
      unfolding e0 using assms(1) pj by (simp add: field_simps)
    show "x < 2 powi (52 - int j + 1)"
      unfolding e1 using assms(2) pj by (simp add: field_simps)
  qed
  then have e: "ilog2 x - 52 = - int j" by simp
  have sc: "x / 2 powi (- int j) = x * 2 ^ j"
    by (simp add: power_int_minus field_simps)
  have "rne (x * 2 ^ j) = m" using assms(3) by (rule rne_nearest)
  then show ?thesis
    unfolding fl_pos [OF pos] e sc by (simp add: power_int_minus field_simps)
qed

lemma fl_evalI_big:
  assumes "2 ^ 52 \<le> x / 2 ^ j" "x / 2 ^ j < 2 ^ 53"
    and "\<bar>x / 2 ^ j - of_int m\<bar> < 1/2 \<or> (\<bar>x / 2 ^ j - of_int m\<bar> = 1/2 \<and> even m)"
  shows "fl x = of_int m * 2 ^ j"
proof -
  have pj: "(0::rat) < 2 ^ j" by simp
  have pos: "0 < x"
  proof (rule ccontr)
    assume "\<not> 0 < x"
    then have "x / 2 ^ j \<le> 0" using pj by (simp add: divide_le_0_iff)
    with assms(1) show False by simp
  qed
  have e0: "(2::rat) powi (52 + int j) = 2 ^ 52 * 2 ^ j"
    by (simp add: power_int_add)
  have e1: "(2::rat) powi (52 + int j + 1) = 2 ^ 53 * 2 ^ j"
    by (simp add: power_int_add)
  have "ilog2 x = 52 + int j"
  proof (rule ilog2_eqI)
    show "2 powi (52 + int j) \<le> x"
      unfolding e0 using assms(1) pj by (simp add: field_simps)
    show "x < 2 powi (52 + int j + 1)"
      unfolding e1 using assms(2) pj by (simp add: field_simps)
  qed
  then have e: "ilog2 x - 52 = int j" by simp
  have "rne (x / 2 ^ j) = m" using assms(3) by (rule rne_nearest)
  then show ?thesis
    unfolding fl_pos [OF pos] e by simp
qed

section \<open>Properties of the builtins\<close>

lemma exc_bind_Inr [simp]: "exc_bind (Inr v) f = f v"
  by (simp add: exc_bind_def)

lemma exc_bind_Inl [simp]: "exc_bind (Inl e) f = Inl e"
  by (simp add: exc_bind_def)

lemma py_min_eq: "xs \<noteq> [] \<Longrightarrow> py_min xs = Inr (Min (set xs))"
  by (cases xs) (simp_all add: Min.set_eq_fold [symmetric] del: set_simps)

lemma py_max_eq: "xs \<noteq> [] \<Longrightarrow> py_max xs = Inr (Max (set xs))"
  by (cases xs) (simp_all add: Max.set_eq_fold [symmetric] del: set_simps)

lemma py_getitem_nat: "k < length xs \<Longrightarrow> py_getitem xs (int k) = Inr (xs ! k)"
  by (simp add: py_getitem_def)

lemma py_getitem_last: "xs \<noteq> [] \<Longrightarrow> py_getitem xs (- 1) = Inr (last xs)"
proof -
  assume ne: "xs \<noteq> []"
  then have "0 < length xs" by simp
  then have "nat (- 1 + int (length xs)) = length xs - 1" by linarith
  with ne show ?thesis
    by (simp add: py_getitem_def last_conv_nth)
qed

lemma int_of_product_percent: "int_of_product n (of_nat a / 100) = int (n * a div 100)"
proof -
  have "of_nat n * (of_nat a / 100) = (of_nat (n * a) :: rat) / of_nat 100"
    by simp
  then show ?thesis
    unfolding int_of_product_def by (simp only: floor_divide_of_nat_eq)
qed

lemma int_of_product_50: "int_of_product n (50/100) = int (n * 50 div 100)"
  using int_of_product_percent [of n 50] by simp

lemma int_of_product_95: "int_of_product n (95/100) = int (n * 95 div 100)"
  using int_of_product_percent [of n 95] by simp

lemma int_of_product_99: "int_of_product n (99/100) = int (n * 99 div 100)"
  using int_of_product_percent [of n 99] by simp


text \<open>
  The index \<open>int(n * p)\<close> computed in floats, with the fraction and the product both
  rounded, is the integer part of the exact product for every list shorter than \<open>2 ^ 40\<close>.
\<close>

lemma fl_rel_error:
  assumes "0 < x"
  shows "\<bar>fl x - x\<bar> \<le> x / 2 ^ 53"
proof -
  define g :: rat where "g = 2 powi (ilog2 x - 52)"
  define m where "m = x / g"
  have gpos: "0 < g" by (simp add: g_def)
  have x: "x = m * g" using gpos by (simp add: m_def)
  have f: "fl x = of_int (rne m) * g"
    unfolding fl_pos [OF assms] m_def g_def ..
  have "\<bar>fl x - x\<bar> = \<bar>of_int (rne m) - m\<bar> * g"
    unfolding f using gpos by (subst x) (simp add: abs_mult left_diff_distrib [symmetric])
  also have "\<dots> \<le> 1/2 * g"
    using rne_bounds [of m] gpos by (intro mult_right_mono) simp_all
  finally have a: "\<bar>fl x - x\<bar> \<le> g / 2" by simp
  have "g = 2 powi ilog2 x / 2 ^ 52"
    unfolding g_def by (simp add: power_int_diff)
  also have "\<dots> \<le> x / 2 ^ 52"
    using ilog2_bounds [OF assms] by (simp add: divide_right_mono)
  finally have "g / 2 \<le> x / 2 ^ 53" by simp
  with a show ?thesis by linarith
qed

lemma fl_below_int:
  assumes "0 < x" and "x \<le> of_int q" and "q \<le> 2 ^ 52" and "(of_int q - x) * 2 ^ 54 < x"
  shows "fl x = of_int q"
proof -
  note b = ilog2_bounds [OF assms(1)]
  have "(2::rat) powi ilog2 x < 2 powi 53"
  proof -
    have "(of_int q :: rat) \<le> 2 ^ 52" using assms(3) by (metis of_int_le_iff of_int_numeral of_int_power)
    then have "x < 2 ^ 53" using assms(2) by simp
    with b show ?thesis by simp
  qed
  have lt: "ilog2 x < 53"
  proof (rule ccontr)
    assume "\<not> ilog2 x < 53"
    then have "(2::rat) powi 53 \<le> 2 powi ilog2 x"
      by (intro power_int_increasing) simp_all
    with \<open>(2::rat) powi ilog2 x < 2 powi 53\<close> show False by simp
  qed
  define k where "k = nat (52 - ilog2 x)"
  have k: "ilog2 x - 52 = - int k" using lt by (simp add: k_def)
  have g: "(2::rat) powi (ilog2 x - 52) = 1 / 2 ^ k"
    unfolding k by (simp add: power_int_minus field_simps)
  have up: "x < 2 / 2 ^ k * 2 ^ 52"
  proof -
    have "(2::rat) powi (ilog2 x + 1) = 2 powi (ilog2 x - 52) * 2 ^ 53"
      by (simp add: power_int_diff power_int_add)
    then show ?thesis using b unfolding g by simp
  qed
  have "(of_int q - x) * 2 ^ 54 < 2 / 2 ^ k * 2 ^ 52" using assms(4) up by linarith
  then have "(of_int q - x) * 2 ^ k * 2 < 1"
    by (simp add: field_simps)
  then have near: "\<bar>x * 2 ^ k - of_int (q * 2 ^ k)\<bar> < 1/2"
    using assms(2) by (simp add: abs_if field_simps)
  have "rne (x / 2 powi (ilog2 x - 52)) = q * 2 ^ k"
    unfolding g using near by (intro rne_eqI) simp
  then show ?thesis
    unfolding fl_pos [OF assms(1)] g by simp
qed


lemma floor_fl_near:
  assumes "0 < x" and "x \<le> y" and "y \<le> 2 ^ 40" and "(y - x) * 2 ^ 54 < x"
    and "y = of_int q + of_nat r / 100" and "r < 100"
  shows "\<lfloor>fl x\<rfloor> = q"
proof (cases "r = 0")
  case True
  then have y: "y = of_int q" using assms(5) by simp
  have "(of_int q :: rat) \<le> of_int (2 ^ 40)" using assms(3) unfolding y by simp
  then have "q \<le> 2 ^ 40" by (simp only: of_int_le_iff)
  then have "q \<le> 2 ^ 52" by simp
  with assms(1,2,4) have "fl x = of_int q" unfolding y by (intro fl_below_int)
  then show ?thesis by simp
next
  case False
  then have r: "1 \<le> (of_nat r :: rat)" "(of_nat r :: rat) \<le> 99"
    using assms(6) by simp_all
  have x40: "x \<le> 2 ^ 40" using assms(2,3) by simp
  have "x / 2 ^ 53 \<le> 2 ^ 40 / 2 ^ 53" using x40 by (intro divide_right_mono) simp_all
  then have e: "\<bar>fl x - x\<bar> \<le> 1 / 8192" using fl_rel_error [OF assms(1)] by simp
  have "x / 2 ^ 54 \<le> 2 ^ 40 / 2 ^ 54" using x40 by (intro divide_right_mono) simp_all
  moreover have "y - x < x / 2 ^ 54" using assms(4) by (simp add: field_simps)
  ultimately have d: "y - x < 1 / 16384" by simp
  show ?thesis
  proof (rule floor_unique)
    show "of_int q \<le> fl x" using e d r assms(5) by linarith
    show "fl x < of_int q + 1" using e r assms(2,5) by linarith
  qed
qed

lemma float_index_general:
  fixes a n :: nat
  assumes "n < 2 ^ 40" and "0 < c" and "c \<le> of_nat a / 100" and "a \<le> 100"
    and "(of_nat a / 100 - c) * 2 ^ 54 < c"
  shows "\<lfloor>fl (of_nat n * c)\<rfloor> = int (n * a div 100)"
proof (cases "n = 0")
  case True
  then show ?thesis by simp
next
  case False
  then have npos: "(0::rat) < of_nat n" by simp
  define y :: rat where "y = of_nat n * (of_nat a / 100)"
  have 1: "0 < of_nat n * c" using npos assms(2) by simp
  have 2: "of_nat n * c \<le> y" unfolding y_def using assms(3) npos by (simp add: mult_left_mono)
  have "y \<le> of_nat n * 1"
    unfolding y_def using assms(4) by (intro mult_left_mono) simp_all
  moreover have "(of_nat n :: rat) \<le> 2 ^ 40"
    using assms(1) by (metis less_imp_le of_nat_le_iff of_nat_numeral of_nat_power)
  ultimately have 3: "y \<le> 2 ^ 40" by simp
  have "of_nat n * ((of_nat a / 100 - c) * 2 ^ 54) < of_nat n * c"
    using assms(5) npos by (rule mult_strict_left_mono)
  then have 4: "(y - of_nat n * c) * 2 ^ 54 < of_nat n * c"
    unfolding y_def by (simp add: algebra_simps)
  have "(of_nat n * of_nat a :: rat) = of_nat (n * a)" by simp
  also have "\<dots> = of_nat (100 * (n * a div 100) + n * a mod 100)"
    by (simp only: mult_div_mod_eq)
  also have "\<dots> = 100 * of_nat (n * a div 100) + of_nat (n * a mod 100)"
    by (simp only: of_nat_add of_nat_mult of_nat_numeral)
  finally have "of_nat n * (of_nat a / 100) =
      (of_nat (n * a div 100) :: rat) + of_nat (n * a mod 100) / 100"
    by (simp add: field_simps)
  then have 5: "y = of_int (int (n * a div 100)) + of_nat (n * a mod 100) / 100"
    unfolding y_def by simp
  have 6: "n * a mod 100 < 100" by simp
  from 1 2 3 4 5 6 show ?thesis by (rule floor_fl_near)
qed

lemma fl_95_percent: "fl (95 / 100) = 4278419646001971 / 4503599627370496"
  using fl_evalI [of "19 / 20" 53 8556839292003942] by simp

lemma fl_99_percent: "fl (99 / 100) = 4458563631096791 / 4503599627370496"
  using fl_evalI [of "99 / 100" 53 8917127262193582] by simp

lemma fl_50_percent: "fl (50 / 100) = 1 / 2"
  using fl_evalI [of "1 / 2" 53 4503599627370496] by simp

lemma float_index_50:
  "n < 2 ^ 40 \<Longrightarrow> \<lfloor>fl (of_nat n * fl (50 / 100))\<rfloor> = int_of_product n (50 / 100)"
  unfolding int_of_product_50 fl_50_percent
  using float_index_general [of n "1 / 2" 50] by simp

lemma float_index_95:
  "n < 2 ^ 40 \<Longrightarrow> \<lfloor>fl (of_nat n * fl (95 / 100))\<rfloor> = int_of_product n (95 / 100)"
  unfolding int_of_product_95 fl_95_percent
  using float_index_general [of n "4278419646001971 / 4503599627370496" 95] by simp

lemma float_index_99:
  "n < 2 ^ 40 \<Longrightarrow> \<lfloor>fl (of_nat n * fl (99 / 100))\<rfloor> = int_of_product n (99 / 100)"
  unfolding int_of_product_99 fl_99_percent
  using float_index_general [of n "4458563631096791 / 4503599627370496" 99] by simp

lemma py_truediv_1000: "py_truediv x 1000 = Inr (fl (x / 1000))"
  by (simp add: py_truediv_def)

section \<open>What \<open>calculate_stats\<close> returns\<close>

lemma calculate_stats_empty:
  "latencies_of rs = [] \<Longrightarrow> calculate_stats rs = Inr (Error_dict ''No successful requests'')"
  by (simp add: calculate_stats_def)

lemma length_latencies_of: "length (latencies_of rs) = length (successful_of rs)"
  by (simp add: latencies_of_def)

text \<open>
  With a successful result, the only exception is the one of the throughput division.
  In the model it is raised exactly when the sum of the latencies is zero; in binary64
  it is raised also for a sum so small (below about 5e-321) that its quotient by 1000
  underflows to 0.0.
\<close>

lemma calculate_stats_nonempty:
  assumes "latencies_of rs \<noteq> []"
  shows "calculate_stats rs =
     (if py_sum (latencies_of rs) = 0 then Inl ZeroDivisionError
      else Inr (Stats_dict
        \<lparr>stat_total = int (length rs),
         stat_success = int (length (successful_of rs)),
         stat_errors = int (length rs) - int (length (successful_of rs)),
         stat_min = Min (set (latencies_of rs)),
         stat_max = Max (set (latencies_of rs)),
         stat_avg = fl (sum_list (latencies_of rs) / of_nat (length (latencies_of rs))),
         stat_p50 = sort (latencies_of rs) ! (length (latencies_of rs) * 50 div 100),
         stat_p95 = (if 20 \<le> length (latencies_of rs)
                     then sort (latencies_of rs) ! (length (latencies_of rs) * 95 div 100)
                     else last (sort (latencies_of rs))),
         stat_p99 = (if 100 \<le> length (latencies_of rs)
                     then sort (latencies_of rs) ! (length (latencies_of rs) * 99 div 100)
                     else last (sort (latencies_of rs))),
         stat_throughput =
           fl (of_nat (length (successful_of rs)) / fl (py_sum (latencies_of rs) / 1000))\<rparr>))"
proof -
  define ls where "ls = latencies_of rs"
  define n where "n = length ls"
  have ne: "ls \<noteq> []" using assms by (simp add: ls_def)
  then have npos: "0 < n" by (simp add: n_def)
  have sne: "sort ls \<noteq> []" using ne by (metis length_sort length_0_conv)
  have len: "length (sort ls) = n" by (simp add: n_def)
  have i50: "n * 50 div 100 < length (sort ls)" using npos unfolding len by simp
  have i95: "n * 95 div 100 < length (sort ls)" using npos unfolding len by simp
  have i99: "n * 99 div 100 < length (sort ls)" using npos unfolding len by simp
  have g50: "py_getitem (sort ls) (int_of_product n (50/100)) = Inr (sort ls ! (n * 50 div 100))"
    unfolding int_of_product_50 using i50 by (rule py_getitem_nat)
  have g95: "py_getitem (sort ls) (int_of_product n (95/100)) = Inr (sort ls ! (n * 95 div 100))"
    unfolding int_of_product_95 using i95 by (rule py_getitem_nat)
  have g99: "py_getitem (sort ls) (int_of_product n (99/100)) = Inr (sort ls ! (n * 99 div 100))"
    unfolding int_of_product_99 using i99 by (rule py_getitem_nat)
  have gl: "py_getitem (sort ls) (- 1) = Inr (last (sort ls))"
    using sne by (rule py_getitem_last)
  have mean: "py_mean ls = Inr (fl (sum_list ls / of_nat n))"
    using ne by (simp add: py_mean_def n_def)
  show ?thesis
    unfolding calculate_stats_def Let_def ls_def [symmetric] len
    using ne
    by (simp add: py_min_eq py_max_eq mean g50 [simplified] g95 [simplified] g99 [simplified] gl
        py_truediv_1000 py_truediv_def n_def [symmetric])
qed

subsection \<open>Percentiles and ordering of the returned statistics\<close>

lemma calculate_stats_returned:
  assumes "calculate_stats rs = Inr (Stats_dict st)"
  shows "latencies_of rs \<noteq> [] \<and> py_sum (latencies_of rs) \<noteq> 0
    \<and> st = \<lparr>stat_total = int (length rs),
         stat_success = int (length (successful_of rs)),
         stat_errors = int (length rs) - int (length (successful_of rs)),
         stat_min = Min (set (latencies_of rs)),
         stat_max = Max (set (latencies_of rs)),
         stat_avg = fl (sum_list (latencies_of rs) / of_nat (length (latencies_of rs))),
         stat_p50 = sort (latencies_of rs) ! (length (latencies_of rs) * 50 div 100),
         stat_p95 = (if 20 \<le> length (latencies_of rs)
                     then sort (latencies_of rs) ! (length (latencies_of rs) * 95 div 100)
                     else last (sort (latencies_of rs))),
         stat_p99 = (if 100 \<le> length (latencies_of rs)
                     then sort (latencies_of rs) ! (length (latencies_of rs) * 99 div 100)
                     else last (sort (latencies_of rs))),
         stat_throughput =
           fl (of_nat (length (successful_of rs)) / fl (py_sum (latencies_of rs) / 1000))\<rparr>"
proof -
  have ne: "latencies_of rs \<noteq> []"
    using assms by (auto simp: calculate_stats_empty)
  from calculate_stats_nonempty [OF ne] assms
  have nz: "py_sum (latencies_of rs) \<noteq> 0" by (auto split: if_splits)
  from calculate_stats_nonempty [OF ne] assms nz ne show ?thesis by simp
qed

lemma fallback_index_95: "0 < n \<Longrightarrow> n < 20 \<Longrightarrow> n * 95 div 100 = n - (1::nat)"
  by linarith

lemma fallback_index_99: "0 < n \<Longrightarrow> n < 100 \<Longrightarrow> n * 99 div 100 = n - (1::nat)"
  by linarith

lemma calculate_stats_percentiles:
  assumes "calculate_stats rs = Inr (Stats_dict st)"
  shows "stat_p50 st = sort (latencies_of rs) ! (length (latencies_of rs) * 50 div 100)"
    and "stat_p95 st = (if 20 \<le> length (latencies_of rs)
           then sort (latencies_of rs) ! (length (latencies_of rs) * 95 div 100)
           else last (sort (latencies_of rs)))"
    and "stat_p99 st = (if 100 \<le> length (latencies_of rs)
           then sort (latencies_of rs) ! (length (latencies_of rs) * 99 div 100)
           else last (sort (latencies_of rs)))"
proof -
  from calculate_stats_returned [OF assms] obtain r where "st = r" and
    "r = \<lparr>stat_total = int (length rs),
         stat_success = int (length (successful_of rs)),
         stat_errors = int (length rs) - int (length (successful_of rs)),
         stat_min = Min (set (latencies_of rs)),
         stat_max = Max (set (latencies_of rs)),
         stat_avg = fl (sum_list (latencies_of rs) / of_nat (length (latencies_of rs))),
         stat_p50 = sort (latencies_of rs) ! (length (latencies_of rs) * 50 div 100),
         stat_p95 = (if 20 \<le> length (latencies_of rs)
                     then sort (latencies_of rs) ! (length (latencies_of rs) * 95 div 100)
                     else last (sort (latencies_of rs))),
         stat_p99 = (if 100 \<le> length (latencies_of rs)
                     then sort (latencies_of rs) ! (length (latencies_of rs) * 99 div 100)
                     else last (sort (latencies_of rs))),
         stat_throughput =
           fl (of_nat (length (successful_of rs)) / fl (py_sum (latencies_of rs) / 1000))\<rparr>"
    by blast
  then show "stat_p50 st = sort (latencies_of rs) ! (length (latencies_of rs) * 50 div 100)"
    and "stat_p95 st = (if 20 \<le> length (latencies_of rs)
           then sort (latencies_of rs) ! (length (latencies_of rs) * 95 div 100)
           else last (sort (latencies_of rs)))"
    and "stat_p99 st = (if 100 \<le> length (latencies_of rs)
           then sort (latencies_of rs) ! (length (latencies_of rs) * 99 div 100)
           else last (sort (latencies_of rs)))"
    by simp_all
qed

lemma sum_list_bounds:
  fixes xs :: "rat list"
  assumes "xs \<noteq> []"
  shows "Min (set xs) \<le> sum_list xs / of_nat (length xs)"
    and "sum_list xs / of_nat (length xs) \<le> Max (set xs)"
proof -
  have pos: "(0::rat) < of_nat (length xs)" using assms by simp
  have "sum_list (map (\<lambda>_. Min (set xs)) xs) \<le> sum_list (map (\<lambda>x. x) xs)"
    by (rule sum_list_mono) simp
  then have lo: "of_nat (length xs) * Min (set xs) \<le> sum_list xs"
    by (simp add: sum_list_triv)
  have "sum_list (map (\<lambda>x. x) xs) \<le> sum_list (map (\<lambda>_. Max (set xs)) xs)"
    by (rule sum_list_mono) simp
  then have hi: "sum_list xs \<le> of_nat (length xs) * Max (set xs)"
    by (simp add: sum_list_triv)
  show "Min (set xs) \<le> sum_list xs / of_nat (length xs)"
    using lo pos by (simp add: pos_le_divide_eq mult.commute)
  show "sum_list xs / of_nat (length xs) \<le> Max (set xs)"
    using hi pos by (simp add: pos_divide_le_eq mult.commute)
qed

lemma calculate_stats_ordered:
  assumes "calculate_stats rs = Inr (Stats_dict st)"
    and floats: "\<forall>x \<in> set (latencies_of rs). fl x = x"
  shows "stat_min st \<le> stat_avg st \<and> stat_avg st \<le> stat_max st
    \<and> stat_min st \<le> stat_p50 st \<and> stat_p50 st \<le> stat_p95 st
    \<and> stat_p95 st \<le> stat_p99 st \<and> stat_p99 st \<le> stat_max st
    \<and> stat_p50 st \<in> set (latencies_of rs) \<and> stat_p95 st \<in> set (latencies_of rs)
    \<and> stat_p99 st \<in> set (latencies_of rs)"
proof -
  define ls where "ls = latencies_of rs"
  define srt where "srt = sort ls"
  define n where "n = length ls"
  note r = calculate_stats_returned [OF assms(1), folded ls_def, folded srt_def n_def]
  from r have ne: "ls \<noteq> []" by simp
  then have npos: "0 < n" by (simp add: n_def)
  have len: "length srt = n" by (simp add: srt_def n_def)
  have sset: "set srt = set ls" by (simp add: srt_def)
  have srt: "sorted srt" by (simp add: srt_def)
  have sne: "srt \<noteq> []" using len npos by auto
  have lastn: "last srt = srt ! (n - 1)" using sne len by (simp add: last_conv_nth)
  have mem: "\<And>i. i < n \<Longrightarrow> srt ! i \<in> set ls" using len sset nth_mem by metis
  have mono: "\<And>i j. i \<le> j \<Longrightarrow> j < n \<Longrightarrow> srt ! i \<le> srt ! j"
    using srt len by (simp add: sorted_nth_mono)
  have fields: "stat_min st = Min (set ls)" "stat_max st = Max (set ls)"
    "stat_avg st = fl (sum_list ls / of_nat n)"
    "stat_p50 st = srt ! (n * 50 div 100)"
    "stat_p95 st = (if 20 \<le> n then srt ! (n * 95 div 100) else srt ! (n - 1))"
    "stat_p99 st = (if 100 \<le> n then srt ! (n * 99 div 100) else srt ! (n - 1))"
    using r lastn by simp_all
  have i50: "n * 50 div 100 < n" and i95: "n * 95 div 100 < n" and i99: "n * 99 div 100 < n"
    and il: "n - 1 < n"
    using npos by simp_all
  have "Min (set ls) \<in> set ls" "Max (set ls) \<in> set ls" using ne by simp_all
  then have fmin: "fl (Min (set ls)) = Min (set ls)" and fmax: "fl (Max (set ls)) = Max (set ls)"
    using floats unfolding ls_def by simp_all
  have a1: "stat_min st \<le> stat_avg st"
    using fl_mono [OF sum_list_bounds(1) [OF ne]] unfolding fields fmin n_def .
  have a2: "stat_avg st \<le> stat_max st"
    using fl_mono [OF sum_list_bounds(2) [OF ne]] unfolding fields fmax n_def .
  have p50: "stat_p50 st \<in> set ls" unfolding fields using mem [OF i50] .
  have p95: "stat_p95 st \<in> set ls" unfolding fields using mem [OF i95] mem [OF il] by simp
  have p99: "stat_p99 st \<in> set ls" unfolding fields using mem [OF i99] mem [OF il] by simp
  have b1: "stat_min st \<le> stat_p50 st" unfolding fields(1) using p50 by simp
  have b4: "stat_p99 st \<le> stat_max st" unfolding fields(2) using p99 by simp
  have b2: "stat_p50 st \<le> stat_p95 st"
    unfolding fields using mono [of "n * 50 div 100" "n * 95 div 100"]
      mono [of "n * 50 div 100" "n - 1"] npos by auto
  have b3: "stat_p95 st \<le> stat_p99 st"
    unfolding fields using mono [of "n * 95 div 100" "n * 99 div 100"]
      mono [of "n * 95 div 100" "n - 1"] mono [of "n - 1" "n - 1"] npos by auto
  show ?thesis using a1 a2 b1 b2 b3 b4 p50 p95 p99 unfolding ls_def by simp
qed

subsection \<open>Zero latencies\<close>

lemma calculate_stats_zero_sum:
  "latencies_of rs \<noteq> [] \<Longrightarrow> py_sum (latencies_of rs) = 0 \<Longrightarrow> calculate_stats rs = Inl ZeroDivisionError"
  by (simp add: calculate_stats_nonempty)

lemma calculate_stats_throughput:
  assumes "latencies_of rs \<noteq> []" and "py_sum (latencies_of rs) \<noteq> 0"
  shows "\<exists>st. calculate_stats rs = Inr (Stats_dict st)
    \<and> stat_throughput st =
        fl (of_nat (length (successful_of rs)) / fl (py_sum (latencies_of rs) / 1000))"
  using calculate_stats_nonempty [OF assms(1)] assms(2) by simp

lemma py_sum_replicate_0: "py_sum (replicate n 0) = 0"
proof -
  have "foldl (\<lambda>acc x. fl (acc + x)) 0 (replicate n 0) = 0"
    by (induction n) simp_all
  then show ?thesis by (simp add: py_sum_def)
qed

subsection \<open>Floats met in the examples\<close>

lemma fl_100: "fl 100 = 100"
  using fl_evalI [of "100" 46 7036874417766400] by simp

lemma fl_300: "fl 300 = 300"
  using fl_evalI [of "300" 44 5277655813324800] by simp

lemma fl_500: "fl 500 = 500"
  using fl_evalI [of "500" 44 8796093022208000] by simp

lemma fl_600: "fl 600 = 600"
  using fl_evalI [of "600" 43 5277655813324800] by simp

lemma fl_600_ms: "fl (3 / 5) = 5404319552844595 / 9007199254740992"
  using fl_evalI [of "3 / 5" 53 5404319552844595] by simp

lemma fl_3_per_600_ms: "fl (27021597764222976 / 5404319552844595) = 5"
  using fl_evalI [of "27021597764222976 / 5404319552844595" 50 5629499534213120] by simp

subsection \<open>No successful request\<close>

text \<open>
  C3. When no result is successful (an empty or an all-failed collection), the statistics
  computation returns the dict \<open>{"error": "No successful requests"}\<close>: it raises
  nothing, and the returned value has no numeric field.
\<close>

theorem calculate_stats_no_successful:
  "successful_of rs = [] \<Longrightarrow> calculate_stats rs = Inr (Error_dict ''No successful requests'')"
  by (simp add: calculate_stats_empty latencies_of_def)

theorem calculate_stats_no_successful_witness:
  "successful_of [failed 30000 ''HTTP 500'', failed 125 []] = []
   \<and> calculate_stats [failed 30000 ''HTTP 500'', failed 125 []]
     = Inr (Error_dict ''No successful requests'')"
proof -
  have h: "successful_of [failed 30000 ''HTTP 500'', failed 125 []] = []"
    by (simp add: successful_of_def failed_def)
  from h calculate_stats_no_successful [OF h] show ?thesis by simp
qed

subsection \<open>Throughput\<close>

lemma throughput_example:
  "\<exists>st. calculate_stats [succeeded 100, failed 30000 ''HTTP 500'', succeeded 200, succeeded 300]
          = Inr (Stats_dict st) \<and> stat_throughput st = 5"
proof -
  let ?rs = "[succeeded 100, failed 30000 ''HTTP 500'', succeeded 200, succeeded 300]"
  have s: "successful_of ?rs = [succeeded 100, succeeded 200, succeeded 300]"
    by (simp add: successful_of_def succeeded_def failed_def)
  have l: "latencies_of ?rs = [100, 200, 300]"
    by (simp add: latencies_of_def s) (simp add: succeeded_def)
  have p: "py_sum (latencies_of ?rs) = 600"
    unfolding l by (simp add: py_sum_def fl_100 fl_300 fl_600)
  have h1: "latencies_of ?rs \<noteq> []" by (simp add: l)
  have h2: "py_sum (latencies_of ?rs) \<noteq> 0" by (simp add: p)
  from calculate_stats_throughput [OF h1 h2] show ?thesis
    by (simp add: p s fl_600_ms fl_3_per_600_ms)
qed

text \<open>
  C2. The claim: for every collection with a successful result, the throughput of the
  computed statistics is the number of successful results divided by the sum of their
  latencies taken in seconds. The code computes this quotient (lemma
  \<open>calculate_stats_throughput\<close>; for successes of 100, 200 and 300 ms it is 5, lemma
  \<open>throughput_example\<close>), but one successful result of latency 0 is a collection with a
  successful result for which no throughput is returned: the sum is 0 and the division
  raises \<open>ZeroDivisionError\<close>.
\<close>

theorem throughput_zero_latency_raises:
  "successful_of [succeeded 0] \<noteq> [] \<and> calculate_stats [succeeded 0] = Inl ZeroDivisionError"
proof -
  have l: "latencies_of [succeeded 0] = replicate 1 0"
    by (simp add: latencies_of_def successful_of_def succeeded_def)
  have "calculate_stats [succeeded 0] = Inl ZeroDivisionError"
    by (rule calculate_stats_zero_sum) (simp_all add: l py_sum_replicate_0 del: replicate.simps)
  then show ?thesis by (simp add: successful_of_def succeeded_def)
qed

subsection \<open>Percentiles\<close>

text \<open>
  C1. The claim: for every non-empty list of successful latencies, the computation
  returns p50, p95 and p99 taken from the sorted list, p95 and p99 at the index
  \<open>int(n * 0.95)\<close> and \<open>int(n * 0.99)\<close> from 20 and 100 latencies on and the maximum
  below. Whenever statistics are returned they are these (lemma
  \<open>calculate_stats_percentiles\<close>), but twenty successful results of latency 0 are a
  non-empty list for which nothing is returned: \<open>calculate_stats\<close> raises
  \<open>ZeroDivisionError\<close> on the \<open>"throughput"\<close> entry of the dict, after the percentiles have
  been computed.
\<close>

theorem percentiles_zero_latency_raises:
  "calculate_stats (replicate 20 (succeeded 0)) = Inl ZeroDivisionError"
proof -
  have l: "latencies_of (replicate 20 (succeeded 0)) = replicate 20 0"
    by (simp add: latencies_of_def successful_of_def succeeded_def)
  show ?thesis
    by (rule calculate_stats_zero_sum) (simp_all add: l py_sum_replicate_0)
qed

subsection \<open>Ordering of the statistics\<close>

text \<open>
  C10. The claim: for every collection with a successful result, the computed statistics
  satisfy min \<le> avg \<le> max and min \<le> p50 \<le> p95 \<le> p99 \<le> max, and each percentile is an
  observed latency. Whenever statistics are returned they do (lemma
  \<open>calculate_stats_ordered\<close>), but for two successful results of latency 0 and one
  failed result \<open>calculate_stats\<close> raises \<open>ZeroDivisionError\<close> and returns no statistics.
\<close>

theorem ordering_zero_latency_raises:
  "calculate_stats [succeeded 0, failed 30000 ''HTTP 503'', succeeded 0] = Inl ZeroDivisionError"
proof -
  have l: "latencies_of [succeeded 0, failed 30000 ''HTTP 503'', succeeded 0] = replicate 2 0"
    by (simp add: latencies_of_def successful_of_def succeeded_def failed_def numeral_2_eq_2)
  show ?thesis
    by (rule calculate_stats_zero_sum) (simp_all add: l py_sum_replicate_0 del: replicate.simps)
qed

subsection \<open>Reordering the results\<close>

lemma mset_latencies_of:
  "mset rs = mset rs' \<Longrightarrow> mset (latencies_of rs) = mset (latencies_of rs')"
  unfolding latencies_of_def successful_of_def
  by (metis mset_filter mset_map)

lemma mset_successful_of:
  "mset rs = mset rs' \<Longrightarrow> mset (successful_of rs) = mset (successful_of rs')"
  unfolding successful_of_def by (metis mset_filter)

lemma sort_cong_mset: "mset xs = mset ys \<Longrightarrow> sort xs = sort ys"
  by (metis sorted_list_of_multiset_mset)

lemma sum_list_cong_mset: "mset xs = mset ys \<Longrightarrow> sum_list xs = sum_list (ys :: rat list)"
  by (metis sum_mset_sum_list)

lemma calculate_stats_same_sum:
  assumes "mset rs = mset rs'" and "py_sum (latencies_of rs) = py_sum (latencies_of rs')"
  shows "calculate_stats rs = calculate_stats rs'"
proof -
  note l = mset_latencies_of [OF assms(1)]
  note s = mset_successful_of [OF assms(1)]
  have len: "length rs = length rs'" "length (successful_of rs) = length (successful_of rs')"
    "length (latencies_of rs) = length (latencies_of rs')"
    using assms(1) l s by (auto dest: mset_eq_length)
  have st: "set (latencies_of rs) = set (latencies_of rs')" using l by (rule mset_eq_setD)
  have so: "sort (latencies_of rs) = sort (latencies_of rs')" using l by (rule sort_cong_mset)
  have su: "sum_list (latencies_of rs) = sum_list (latencies_of rs')" using l by (rule sum_list_cong_mset)
  show ?thesis
  proof (cases "latencies_of rs = []")
    case True
    then have "latencies_of rs' = []" using len(3) by simp
    with True show ?thesis by (simp add: calculate_stats_empty)
  next
    case False
    then have "latencies_of rs' \<noteq> []" using len(3) by auto
    from calculate_stats_nonempty [OF False] calculate_stats_nonempty [OF this]
    show ?thesis unfolding len st so su assms(2) by simp
  qed
qed

lemma calculate_stats_reordered_fields:
  assumes "mset rs = mset rs'"
    and "calculate_stats rs = Inr (Stats_dict st)" and "calculate_stats rs' = Inr (Stats_dict st')"
  shows "stat_total st = stat_total st' \<and> stat_success st = stat_success st'
    \<and> stat_errors st = stat_errors st' \<and> stat_min st = stat_min st' \<and> stat_max st = stat_max st'
    \<and> stat_avg st = stat_avg st' \<and> stat_p50 st = stat_p50 st' \<and> stat_p95 st = stat_p95 st'
    \<and> stat_p99 st = stat_p99 st'"
proof -
  note l = mset_latencies_of [OF assms(1)]
  note s = mset_successful_of [OF assms(1)]
  have len: "length rs = length rs'" "length (successful_of rs) = length (successful_of rs')"
    "length (latencies_of rs) = length (latencies_of rs')"
    using assms(1) l s by (auto dest: mset_eq_length)
  have st: "set (latencies_of rs) = set (latencies_of rs')" using l by (rule mset_eq_setD)
  have so: "sort (latencies_of rs) = sort (latencies_of rs')" using l by (rule sort_cong_mset)
  have su: "sum_list (latencies_of rs) = sum_list (latencies_of rs')" using l by (rule sum_list_cong_mset)
  have ne: "latencies_of rs \<noteq> []"
    using assms(2) by (auto simp: calculate_stats_empty)
  then have ne': "latencies_of rs' \<noteq> []" using len(3) by auto
  from calculate_stats_nonempty [OF ne] assms(2)
  have a: "py_sum (latencies_of rs) \<noteq> 0" by (auto split: if_splits)
  from calculate_stats_nonempty [OF ne'] assms(3)
  have b: "py_sum (latencies_of rs') \<noteq> 0" by (auto split: if_splits)
  from calculate_stats_nonempty [OF ne] assms(2) a
  have e: "st = \<lparr>stat_total = int (length rs),
         stat_success = int (length (successful_of rs)),
         stat_errors = int (length rs) - int (length (successful_of rs)),
         stat_min = Min (set (latencies_of rs)),
         stat_max = Max (set (latencies_of rs)),
         stat_avg = fl (sum_list (latencies_of rs) / of_nat (length (latencies_of rs))),
         stat_p50 = sort (latencies_of rs) ! (length (latencies_of rs) * 50 div 100),
         stat_p95 = (if 20 \<le> length (latencies_of rs)
                     then sort (latencies_of rs) ! (length (latencies_of rs) * 95 div 100)
                     else last (sort (latencies_of rs))),
         stat_p99 = (if 100 \<le> length (latencies_of rs)
                     then sort (latencies_of rs) ! (length (latencies_of rs) * 99 div 100)
                     else last (sort (latencies_of rs))),
         stat_throughput =
           fl (of_nat (length (successful_of rs)) / fl (py_sum (latencies_of rs) / 1000))\<rparr>"
    by simp
  from calculate_stats_nonempty [OF ne'] assms(3) b
  have e': "st' = \<lparr>stat_total = int (length rs'),
         stat_success = int (length (successful_of rs')),
         stat_errors = int (length rs') - int (length (successful_of rs')),
         stat_min = Min (set (latencies_of rs')),
         stat_max = Max (set (latencies_of rs')),
         stat_avg = fl (sum_list (latencies_of rs') / of_nat (length (latencies_of rs'))),
         stat_p50 = sort (latencies_of rs') ! (length (latencies_of rs') * 50 div 100),
         stat_p95 = (if 20 \<le> length (latencies_of rs')
                     then sort (latencies_of rs') ! (length (latencies_of rs') * 95 div 100)
                     else last (sort (latencies_of rs'))),
         stat_p99 = (if 100 \<le> length (latencies_of rs')
                     then sort (latencies_of rs') ! (length (latencies_of rs') * 99 div 100)
                     else last (sort (latencies_of rs'))),
         stat_throughput =
           fl (of_nat (length (successful_of rs')) / fl (py_sum (latencies_of rs') / 1000))\<rparr>"
    by simp
  show ?thesis unfolding e e' len st so su by simp
qed

lemma calculate_stats_reordered_sentinel:
  assumes "mset rs = mset rs'"
  shows "calculate_stats rs = Inr (Error_dict m) \<longleftrightarrow> calculate_stats rs' = Inr (Error_dict m)"
proof -
  have len: "length (latencies_of rs) = length (latencies_of rs')"
    using mset_latencies_of [OF assms] by (rule mset_eq_length)
  show ?thesis
  proof (cases "latencies_of rs = []")
    case True
    then have "latencies_of rs' = []" using len by simp
    with True show ?thesis by (simp add: calculate_stats_empty)
  next
    case False
    then have "latencies_of rs' \<noteq> []" using len by auto
    with False show ?thesis by (simp add: calculate_stats_nonempty)
  qed
qed

text \<open>
  C9 (as amended). For two result collections that are reorderings of each other: one
  returns the no-data dict exactly when the other does; when both return statistics,
  total, success, errors, min, max, avg, p50, p95 and p99 are identical; and when the
  float sum of the successful latencies is the same in both orders, the two outcomes are
  identical altogether, throughput included.
\<close>

theorem calculate_stats_reordered:
  assumes "mset rs = mset rs'"
  shows "(calculate_stats rs = Inr (Error_dict m) \<longleftrightarrow> calculate_stats rs' = Inr (Error_dict m))
    \<and> (calculate_stats rs = Inr (Stats_dict st) \<and> calculate_stats rs' = Inr (Stats_dict st') \<longrightarrow>
         stat_total st = stat_total st' \<and> stat_success st = stat_success st'
         \<and> stat_errors st = stat_errors st' \<and> stat_min st = stat_min st'
         \<and> stat_max st = stat_max st' \<and> stat_avg st = stat_avg st'
         \<and> stat_p50 st = stat_p50 st' \<and> stat_p95 st = stat_p95 st'
         \<and> stat_p99 st = stat_p99 st')
    \<and> (py_sum (latencies_of rs) = py_sum (latencies_of rs') \<longrightarrow>
         calculate_stats rs = calculate_stats rs')"
  using calculate_stats_reordered_sentinel [OF assms]
    calculate_stats_reordered_fields [OF assms]
    calculate_stats_same_sum [OF assms]
  by blast

theorem calculate_stats_reordered_witness:
  "mset [succeeded 100, failed 30000 ''HTTP 500'', succeeded 200, succeeded 300]
     = mset [succeeded 300, succeeded 200, failed 30000 ''HTTP 500'', succeeded 100]
   \<and> calculate_stats [succeeded 100, failed 30000 ''HTTP 500'', succeeded 200, succeeded 300]
     = calculate_stats [succeeded 300, succeeded 200, failed 30000 ''HTTP 500'', succeeded 100]"
proof -
  let ?rs = "[succeeded 100, failed 30000 ''HTTP 500'', succeeded 200, succeeded 300]"
  let ?rs' = "[succeeded 300, succeeded 200, failed 30000 ''HTTP 500'', succeeded 100]"
  have h: "mset ?rs = mset ?rs'" by (simp add: add_mset_commute)
  have l: "latencies_of ?rs = [100, 200, 300]" "latencies_of ?rs' = [300, 200, 100]"
    by (simp_all add: latencies_of_def successful_of_def succeeded_def failed_def)
  have p: "py_sum (latencies_of ?rs) = py_sum (latencies_of ?rs')"
    unfolding l by (simp add: py_sum_def fl_100 fl_300 fl_500 fl_600)
  from calculate_stats_reordered [OF h, of undefined undefined undefined] p h show ?thesis
    by blast
qed

lemma fl_100_1: "fl (1001 / 10) = 3521955646092083 / 35184372088832"
  using fl_evalI [of "1001 / 10" 46 7043911292184166] by simp

lemma fl_200_2: "fl (1001 / 5) = 3521955646092083 / 17592186044416"
  using fl_evalI [of "1001 / 5" 45 7043911292184166] by simp

lemma fl_300_3: "fl (3003 / 10) = 5282933469138125 / 17592186044416"
  using fl_evalI [of "3003 / 10" 44 5282933469138125] by simp

lemma fl_sum_launch_0: "fl (3521955646092083 / 35184372088832) = 3521955646092083 / 35184372088832"
  using fl_evalI [of "3521955646092083 / 35184372088832" 46 7043911292184166] by simp

lemma fl_sum_launch_1: "fl (10565866938276249 / 35184372088832) = 1320733367284531 / 4398046511104"
  using fl_evalI [of "10565866938276249 / 35184372088832" 44 5282933469138124] by simp

lemma fl_sum_launch_2: "fl (10565866938276249 / 17592186044416) = 1320733367284531 / 2199023255552"
  using fl_evalI [of "10565866938276249 / 17592186044416" 43 5282933469138124] by simp

lemma fl_sum_done_0: "fl (3521955646092083 / 17592186044416) = 3521955646092083 / 17592186044416"
  using fl_evalI [of "3521955646092083 / 17592186044416" 45 7043911292184166] by simp

lemma fl_sum_done_1: "fl (1001 / 2) = 1001 / 2"
  using fl_evalI [of "1001 / 2" 44 8804889115230208] by simp

lemma fl_sum_done_2: "fl (21131733876552499 / 35184372088832) = 5282933469138125 / 8796093022208"
  using fl_evalI [of "21131733876552499 / 35184372088832" 43 5282933469138125] by simp

lemma fl_secs_launch: "fl (1320733367284531 / 2199023255552000) = 5409723872397439 / 9007199254740992"
  using fl_evalI [of "1320733367284531 / 2199023255552000" 53 5409723872397439] by simp

lemma fl_thr_launch: "fl (27021597764222976 / 5409723872397439) = 2811937829277283 / 562949953421312"
  using fl_evalI [of "27021597764222976 / 5409723872397439" 50 5623875658554566] by simp

lemma fl_secs_done: "fl (42263467753105 / 70368744177664) = 42263467753105 / 70368744177664"
  using fl_evalI [of "42263467753105 / 70368744177664" 53 5409723872397440] by simp

lemma fl_thr_done: "fl (211106232532992 / 42263467753105) = 5623875658554565 / 1125899906842624"
  using fl_evalI [of "211106232532992 / 42263467753105" 50 5623875658554565] by simp

text \<open>
  C9 as stated fails on the throughput. Successes of 100.1, 200.2 and 300.3 ms, summed in
  that order, give 600.5999999999999, and summed in the order 200.2, 300.3, 100.1 give
  600.6; the two throughputs are 4.9950049950049955 and 4.995004995004995.
\<close>

theorem calculate_stats_reordered_counterexample:
  "mset [succeeded (fl (1001/10)), succeeded (fl (1001/5)), succeeded (fl (3003/10))]
     = mset [succeeded (fl (1001/5)), succeeded (fl (3003/10)), succeeded (fl (1001/10))]
   \<and> calculate_stats [succeeded (fl (1001/10)), succeeded (fl (1001/5)), succeeded (fl (3003/10))]
     \<noteq> calculate_stats [succeeded (fl (1001/5)), succeeded (fl (3003/10)), succeeded (fl (1001/10))]"
proof -
  let ?a = "succeeded (fl (1001/10))" and ?b = "succeeded (fl (1001/5))"
    and ?c = "succeeded (fl (3003/10))"
  have l: "latencies_of [?a, ?b, ?c] = [fl (1001/10), fl (1001/5), fl (3003/10)]"
    "latencies_of [?b, ?c, ?a] = [fl (1001/5), fl (3003/10), fl (1001/10)]"
    by (simp_all add: latencies_of_def successful_of_def succeeded_def)
  have n: "length (successful_of [?a, ?b, ?c]) = 3" "length (successful_of [?b, ?c, ?a]) = 3"
    by (simp_all add: successful_of_def succeeded_def)
  have p: "py_sum (latencies_of [?a, ?b, ?c]) = 1320733367284531 / 2199023255552"
    unfolding l
    by (simp add: py_sum_def fl_100_1 fl_200_2 fl_300_3 fl_sum_launch_0 fl_sum_launch_1 fl_sum_launch_2)
  have p': "py_sum (latencies_of [?b, ?c, ?a]) = 5282933469138125 / 8796093022208"
    unfolding l
    by (simp add: py_sum_def fl_100_1 fl_200_2 fl_300_3 fl_sum_done_0 fl_sum_done_1 fl_sum_done_2)
  have "latencies_of [?a, ?b, ?c] \<noteq> []" unfolding l by simp
  from calculate_stats_throughput [OF this] obtain st
    where st: "calculate_stats [?a, ?b, ?c] = Inr (Stats_dict st)"
      "stat_throughput st = 2811937829277283 / 562949953421312"
    by (auto simp: p n fl_secs_launch fl_thr_launch)
  have "latencies_of [?b, ?c, ?a] \<noteq> []" unfolding l by simp
  from calculate_stats_throughput [OF this] obtain st'
    where st': "calculate_stats [?b, ?c, ?a] = Inr (Stats_dict st')"
      "stat_throughput st' = 5623875658554565 / 1125899906842624"
    by (auto simp: p' n fl_secs_done fl_thr_done)
  have "st \<noteq> st'" using st(2) st'(2) by auto
  then have "calculate_stats [?a, ?b, ?c] \<noteq> calculate_stats [?b, ?c, ?a]"
    by (simp add: st(1) st'(1))
  then show ?thesis by (simp add: add_mset_commute)
qed

subsection \<open>The sum of floats and the order of the list\<close>

text \<open>
  With the compensated summation of CPython 3.12 the three latencies above have the same
  sum in every order. The sum still depends on the order of the list: for 64.0,
  9007199254740994.0 and 0.9999999999999999 both summations give 9007199254741058.0 in
  this order and 9007199254741060.0 when the last two are exchanged, and the throughputs
  computed from the two sums differ.
\<close>

lemma fl_wide_0: "fl (64) = 64"
  using fl_evalI [of "64" 46 4503599627370496] by simp

lemma fl_wide_1: "fl (9007199254741058) = 9007199254741058"
  using fl_evalI_big [of "9007199254741058" 1 4503599627370529] by simp

lemma fl_wide_2: "fl (81129638414607285178139072790527 / 9007199254740992) = 9007199254741058"
  using fl_evalI_big [of "81129638414607285178139072790527 / 9007199254740992" 1 4503599627370529] by simp

lemma fl_wide_3: "fl (9007199254740991 / 9007199254740992) = 9007199254740991 / 9007199254740992"
  using fl_evalI [of "9007199254740991 / 9007199254740992" 53 9007199254740991] by simp

lemma fl_wide_4: "fl (585467951558164479 / 9007199254740992) = 65"
  using fl_evalI [of "585467951558164479 / 9007199254740992" 46 4573968371548160] by simp

lemma fl_wide_5: "fl (1) = 1"
  using fl_evalI [of "1" 52 4503599627370496] by simp

lemma fl_wide_6: "fl (1 / 9007199254740992) = 1 / 9007199254740992"
  using fl_evalI [of "1 / 9007199254740992" 105 4503599627370496] by simp

lemma fl_wide_7: "fl (9007199254741059) = 9007199254741060"
  using fl_evalI_big [of "9007199254741059" 1 4503599627370530] by simp

lemma fl_wide_8: "fl (66) = 66"
  using fl_evalI [of "66" 46 4644337115725824] by simp

lemma fl_wide_9: "fl (9007199254740993 / 9007199254740992) = 1"
  using fl_evalI [of "9007199254740993 / 9007199254740992" 52 4503599627370496] by simp

lemma py_sum_compensated_order:
  "py_sum_compensated [64, 9007199254740994, 9007199254740991 / 9007199254740992] = 9007199254741058"
  "py_sum_compensated [64, 9007199254740991 / 9007199254740992, 9007199254740994] = 9007199254741060"
  by (simp_all add: py_sum_compensated_def fl_minus fl_wide_0 fl_wide_1 fl_wide_2 fl_wide_3 fl_wide_4 fl_wide_5 fl_wide_6 fl_wide_7 fl_wide_8 fl_wide_9)

lemma py_sum_order:
  "py_sum [64, 9007199254740994, 9007199254740991 / 9007199254740992] = 9007199254741058"
  "py_sum [64, 9007199254740991 / 9007199254740992, 9007199254740994] = 9007199254741060"
  by (simp_all add: py_sum_def fl_wide_0 fl_wide_1 fl_wide_2 fl_wide_3 fl_wide_4 fl_wide_5 fl_wide_6 fl_wide_7 fl_wide_8 fl_wide_9)

lemma sum_depends_on_order:
  "py_sum [64, 9007199254740994, 9007199254740991 / 9007199254740992]
     \<noteq> py_sum [64, 9007199254740991 / 9007199254740992, 9007199254740994]"
  "py_sum_compensated [64, 9007199254740994, 9007199254740991 / 9007199254740992]
     \<noteq> py_sum_compensated [64, 9007199254740991 / 9007199254740992, 9007199254740994]"
  by (simp_all add: py_sum_order py_sum_compensated_order)

lemma fl_wide_thr_0: "fl (4503599627370529 / 500) = 2305843009213711 / 256"
  using fl_evalI [of "4503599627370529 / 500" 9 4611686018427422] by simp

lemma fl_wide_thr_1: "fl (768 / 2305843009213711) = 6597069766655951 / 19807040628566084398385987584"
  using fl_evalI [of "768 / 2305843009213711" 94 6597069766655951] by simp

lemma fl_wide_thr_2: "fl (450359962737053 / 50) = 4611686018427423 / 512"
  using fl_evalI [of "450359962737053 / 50" 9 4611686018427423] by simp

lemma fl_wide_thr_3: "fl (512 / 1537228672809141) = 3298534883327975 / 9903520314283042199192993792"
  using fl_evalI [of "512 / 1537228672809141" 94 6597069766655950] by simp

lemma throughput_depends_on_sum:
  "fl (3 / fl (9007199254741058 / 1000)) \<noteq> fl (3 / fl (9007199254741060 / 1000))"
  by (simp add: fl_wide_thr_0 fl_wide_thr_1 fl_wide_thr_2 fl_wide_thr_3)

section \<open>The Request Executor\<close>

lemma str_int_500: "str_int 500 = ''500''"
  by code_simp

lemma str_int_204: "str_int 204 = ''204''"
  by code_simp

lemma make_request_200:
  "make_request start (Response 200) now = succeeded (elapsed_ms start now)"
  by (simp add: make_request_def try_block_def succeeded_def)

lemma make_request_other_status:
  "status_code \<noteq> 200 \<Longrightarrow>
   make_request start (Response status_code) now
     = failed (elapsed_ms start now) (''HTTP '' @ str_int status_code)"
  by (simp add: make_request_def try_block_def failed_def)

lemma make_request_raised:
  "make_request start (Raised msg) now = failed (elapsed_ms start now) msg"
  by (simp add: make_request_def try_block_def failed_def)

text \<open>
  C5 (as amended). A response whose status code is exactly 200 gives success=true and no
  error; a response with any other status code S, the other 2xx codes included, gives
  success=false and the error "HTTP S", S written in decimal.
\<close>

theorem make_request_status:
  "make_request start (Response 200) now
     = \<lparr>latency_ms = elapsed_ms start now, success = True, error = None\<rparr>
   \<and> (status_code \<noteq> 200 \<longrightarrow>
        make_request start (Response status_code) now
          = \<lparr>latency_ms = elapsed_ms start now, success = False,
             error = Some (''HTTP '' @ str_int status_code)\<rparr>)"
  by (simp add: make_request_def try_block_def)

theorem make_request_status_witness:
  "(500::int) \<noteq> 200
   \<and> make_request 0 (Response 500) (1/4)
       = \<lparr>latency_ms = elapsed_ms 0 (1/4), success = False, error = Some ''HTTP 500''\<rparr>"
  using make_request_status [of 0 "1/4" 500] by (simp add: str_int_500)

text \<open>
  C5 as stated fails for the success status 204 (No Content): the result has
  success=false and the error "HTTP 204".
\<close>

theorem make_request_status_counterexample:
  "spec_success_status 204
   \<and> \<not> success (make_request 0 (Response 204) (1/4))
   \<and> error (make_request 0 (Response 204) (1/4)) = Some ''HTTP 204''"
  by (simp add: spec_success_status_def make_request_other_status failed_def str_int_204)

text \<open>
  C6. Whatever the call does, \<open>make_request\<close> returns one RequestResult: an exception
  raised in the \<open>try\<close> block is caught and becomes a result with success=false and the
  text of the exception as error, and a response with a status other than 200 becomes a
  result with success=false and the error "HTTP S". So every outcome other than a 200
  response yields success=false with an error that is present, and the sequential
  driver, which calls \<open>make_request\<close> five times, returns five results whatever failed.
\<close>

theorem make_request_absorbs_failures:
  "(try_block start outcome now = Inl msg \<longrightarrow>
      make_request start outcome now = failed (elapsed_ms start now) msg)
   \<and> (outcome \<noteq> Response 200 \<longrightarrow>
        \<not> success (make_request start outcome now)
        \<and> error (make_request start outcome now) \<noteq> None)
   \<and> length (test_single_request env) = 5"
proof -
  have "outcome \<noteq> Response 200 \<Longrightarrow>
      \<not> success (make_request start outcome now) \<and> error (make_request start outcome now) \<noteq> None"
    by (cases outcome) (auto simp: make_request_raised make_request_other_status failed_def)
  then show ?thesis
    by (auto simp: make_request_def failed_def test_single_request_def)
qed

theorem make_request_absorbs_failures_witness:
  "try_block 0 (Raised ''All connection attempts failed'') (1/4) = Inl ''All connection attempts failed''
   \<and> Raised ''All connection attempts failed'' \<noteq> Response 200
   \<and> make_request 0 (Raised ''All connection attempts failed'') (1/4)
       = failed (elapsed_ms 0 (1/4)) ''All connection attempts failed''
   \<and> \<not> success (make_request 0 (Raised ''All connection attempts failed'') (1/4))
   \<and> error (make_request 0 (Raised ''All connection attempts failed'') (1/4)) \<noteq> None"
proof -
  have h: "try_block 0 (Raised ''All connection attempts failed'') (1/4) = Inl ''All connection attempts failed''"
    by (simp add: try_block_def)
  from make_request_absorbs_failures
    [of 0 "Raised ''All connection attempts failed''" "1/4" "''All connection attempts failed''"] h
  show ?thesis by (simp add: failed_def)
qed

section \<open>The default number of requests\<close>

text \<open>
  C8 (as amended). Called without \<open>total_requests\<close>, \<open>test_concurrent\<close> creates 50 requests
  whatever the concurrency; this is C \<times> 5 only for C = 10. Both callers pass
  \<open>total_requests = C * 5\<close> themselves, so the command-line option \<open>--concurrent C\<close> and
  every stage of the ramp sweep create C \<times> 5 requests.
\<close>

theorem test_concurrent_default_total:
  "0 < c \<Longrightarrow>
   test_concurrent_start c None = Inr (start_state (nat c) 50)
   \<and> main_concurrent c = Inr (start_state (nat c) (nat c * 5))
   \<and> ramp_stage_start c = Inr (start_state (nat c) (nat c * 5))
   \<and> length (waiting (start_state (nat c) n)) = n"
  by (simp add: test_concurrent_start_def main_concurrent_def ramp_stage_start_def
      start_state_def nat_mult_distrib)

theorem test_concurrent_default_total_witness:
  "(0::int) < 20
   \<and> test_concurrent_start 20 None = Inr (start_state 20 50)
   \<and> main_concurrent 20 = Inr (start_state 20 100)
   \<and> length (waiting (start_state 20 100)) = 100"
  using test_concurrent_default_total [of 20 100] by simp

text \<open>
  C8 as stated fails for C = 20: with the concurrency alone, 50 requests are created, not
  100.
\<close>

theorem test_concurrent_default_total_counterexample:
  "test_concurrent_start 20 None = Inr (start_state 20 50)
   \<and> length (waiting (start_state 20 50)) \<noteq> 20 * 5"
  by (simp add: test_concurrent_start_def start_state_def)

section \<open>The breaking point of the ramp sweep\<close>

lemma find_breaking_point_find:
  "find_breaking_point stages =
     (case find crosses stages of
        None \<Rightarrow> All_passed
      | Some s \<Rightarrow> Breaking_point (level s) (level s - 10))"
  by (induction stages) (auto simp: crosses_def split: stats_dict.splits)

lemma find_breaking_point_none:
  "find_breaking_point stages = All_passed \<longleftrightarrow> (\<forall>s \<in> set stages. \<not> crosses s)"
  unfolding find_breaking_point_find
  by (auto simp: find_None_iff find_Some_iff split: option.splits)

lemma find_breaking_point_first:
  assumes "i < length stages" "crosses (stages ! i)" "\<forall>j<i. \<not> crosses (stages ! j)"
  shows "find_breaking_point stages
    = Breaking_point (level (stages ! i)) (level (stages ! i) - 10)"
proof -
  have "find crosses stages = Some (stages ! i)"
    using assms by (auto simp: find_Some_iff)
  then show ?thesis by (simp add: find_breaking_point_find)
qed

lemma first_crossing_is_lowest:
  assumes "sorted_wrt (<) (map level stages)"
    and "i < length stages" "crosses (stages ! i)" "\<forall>j<i. \<not> crosses (stages ! j)"
  shows "level (stages ! i) = Min (level ` {s \<in> set stages. crosses s})"
proof (rule Min_eqI [symmetric])
  show "finite (level ` {s \<in> set stages. crosses s})" by simp
  show "level (stages ! i) \<in> level ` {s \<in> set stages. crosses s}"
    using assms(2,3) by auto
  fix y assume "y \<in> level ` {s \<in> set stages. crosses s}"
  then obtain k where k: "k < length stages" "crosses (stages ! k)" "y = level (stages ! k)"
    by (auto simp: in_set_conv_nth)
  have "\<not> k < i" using assms(4) k(2) by auto
  then consider "k = i" | "i < k" by linarith
  then show "level (stages ! i) \<le> y"
  proof cases
    case 1
    then show ?thesis using k(3) by simp
  next
    case 2
    from sorted_wrt_nth_less [OF assms(1), of i k] 2 k(1)
    have "level (stages ! i) < level (stages ! k)" by simp
    then show ?thesis using k(3) by simp
  qed
qed

lemma exists_first_crossing:
  assumes "\<exists>s \<in> set stages. crosses s"
  shows "\<exists>i<length stages. crosses (stages ! i) \<and> (\<forall>j<i. \<not> crosses (stages ! j))"
proof -
  from assms obtain k where k: "k < length stages" "crosses (stages ! k)"
    by (auto simp: in_set_conv_nth)
  define i where "i = (LEAST k. k < length stages \<and> crosses (stages ! k))"
  have "i < length stages \<and> crosses (stages ! i)"
    unfolding i_def by (rule LeastI [of _ k]) (use k in simp)
  moreover have "\<forall>j<i. \<not> crosses (stages ! j)"
  proof (intro allI impI)
    fix j assume "j < i"
    then have "\<not> (j < length stages \<and> crosses (stages ! j))"
      unfolding i_def by (rule not_less_Least)
    moreover have "j < length stages" using \<open>j < i\<close> calculation \<open>i < length stages \<and> crosses (stages ! i)\<close> by simp
    ultimately show "\<not> crosses (stages ! j)" by simp
  qed
  ultimately show ?thesis by auto
qed

lemma collect_stages_levels:
  "collect_stages xs = Inr stages \<Longrightarrow> map level stages = map fst xs"
proof (induction xs arbitrary: stages)
  case Nil
  then show ?case by simp
next
  case (Cons x xs)
  obtain concurrency rs where x: "x = (concurrency, rs)" by (cases x)
  from Cons.prems obtain stats all_stats where
    "collect_stages xs = Inr all_stats"
    "stages = \<lparr>level = concurrency, stage_stats = stats\<rparr> # all_stats"
    unfolding x by (auto simp: exc_bind_def split: sum.splits)
  with Cons.IH [of all_stats] show ?case by (simp add: x)
qed

lemma run_ramp_test_ascending:
  assumes "run_ramp_test results_per_stage = Inr summary"
  shows "\<exists>stages. collect_stages (zip ramp_levels results_per_stage) = Inr stages
    \<and> sorted_wrt (<) (map level stages) \<and> summary = find_breaking_point stages"
proof -
  from assms obtain stages where
    c: "collect_stages (zip ramp_levels results_per_stage) = Inr stages"
    and s: "summary = find_breaking_point stages"
    by (auto simp: run_ramp_test_def exc_bind_def split: sum.splits)
  have "map level stages
      = take (min (length ramp_levels) (length results_per_stage)) ramp_levels"
    using collect_stages_levels [OF c] by (simp add: map_fst_zip_take)
  moreover have
    "sorted_wrt (<) (take (min (length ramp_levels) (length results_per_stage)) ramp_levels)"
    by (rule sorted_wrt_take) (simp add: ramp_levels_def)
  ultimately show ?thesis using c s by simp
qed

text \<open>
  C4. The summary reports all tests passed exactly when no stage has statistics with a
  p99 of at least 800 ms. Otherwise it reports the level of the first such stage in the
  order of the sweep as breaking point, and that level minus 10 as recommended maximum;
  when the levels ascend, that level is the lowest one whose p99 reaches 800 ms. For p99
  values 200, 300, 400, 850, 900 at the levels 10, 20, 30, 40, 50 the breaking point is 40
  and the recommendation 30.
\<close>

theorem breaking_point_first_crossing:
  "(find_breaking_point stages = All_passed \<longleftrightarrow> (\<forall>s \<in> set stages. \<not> crosses s))
   \<and> (i < length stages \<and> crosses (stages ! i) \<and> (\<forall>j<i. \<not> crosses (stages ! j)) \<longrightarrow>
        find_breaking_point stages
          = Breaking_point (level (stages ! i)) (level (stages ! i) - 10))
   \<and> (sorted_wrt (<) (map level stages) \<and> (\<exists>s \<in> set stages. crosses s) \<longrightarrow>
        find_breaking_point stages
          = Breaking_point (Min (level ` {s \<in> set stages. crosses s}))
              (Min (level ` {s \<in> set stages. crosses s}) - 10))"
proof (intro conjI impI)
  show "find_breaking_point stages = All_passed \<longleftrightarrow> (\<forall>s \<in> set stages. \<not> crosses s)"
    by (rule find_breaking_point_none)
next
  assume "i < length stages \<and> crosses (stages ! i) \<and> (\<forall>j<i. \<not> crosses (stages ! j))"
  then show "find_breaking_point stages
      = Breaking_point (level (stages ! i)) (level (stages ! i) - 10)"
    by (simp add: find_breaking_point_first)
next
  assume a: "sorted_wrt (<) (map level stages) \<and> (\<exists>s \<in> set stages. crosses s)"
  then obtain k where k: "k < length stages" "crosses (stages ! k)" "\<forall>j<k. \<not> crosses (stages ! j)"
    using exists_first_crossing by blast
  from first_crossing_is_lowest [OF _ k] a
  have "level (stages ! k) = Min (level ` {s \<in> set stages. crosses s})" by simp
  with find_breaking_point_first [OF k]
  show "find_breaking_point stages
      = Breaking_point (Min (level ` {s \<in> set stages. crosses s}))
          (Min (level ` {s \<in> set stages. crosses s}) - 10)"
    by simp
qed

lemma crosses_synthetic_stage: "crosses (synthetic_stage c p) \<longleftrightarrow> 800 \<le> p"
  by (simp add: crosses_def synthetic_stage_def)

lemma level_synthetic_stage: "level (synthetic_stage c p) = c"
  by (simp add: synthetic_stage_def)

theorem breaking_point_first_crossing_witness:
  "(3::nat) < length [synthetic_stage 10 200, synthetic_stage 20 300, synthetic_stage 30 400,
        synthetic_stage 40 850, synthetic_stage 50 900]
   \<and> crosses ([synthetic_stage 10 200, synthetic_stage 20 300, synthetic_stage 30 400,
        synthetic_stage 40 850, synthetic_stage 50 900] ! 3)
   \<and> \<not> crosses ([synthetic_stage 10 200, synthetic_stage 20 300, synthetic_stage 30 400,
        synthetic_stage 40 850, synthetic_stage 50 900] ! 0)
   \<and> \<not> crosses ([synthetic_stage 10 200, synthetic_stage 20 300, synthetic_stage 30 400,
        synthetic_stage 40 850, synthetic_stage 50 900] ! 1)
   \<and> \<not> crosses ([synthetic_stage 10 200, synthetic_stage 20 300, synthetic_stage 30 400,
        synthetic_stage 40 850, synthetic_stage 50 900] ! 2)
   \<and> sorted_wrt (<) (map level [synthetic_stage 10 200, synthetic_stage 20 300,
        synthetic_stage 30 400, synthetic_stage 40 850, synthetic_stage 50 900])
   \<and> find_breaking_point [synthetic_stage 10 200, synthetic_stage 20 300, synthetic_stage 30 400,
        synthetic_stage 40 850, synthetic_stage 50 900] = Breaking_point 40 30"
proof -
  let ?st = "[synthetic_stage 10 200, synthetic_stage 20 300, synthetic_stage 30 400,
        synthetic_stage 40 850, synthetic_stage 50 900]"
  have h1: "(3::nat) < length ?st" by simp
  have h2: "crosses (?st ! 3)" by (simp add: crosses_synthetic_stage)
  have h3: "\<forall>j<3. \<not> crosses (?st ! j)"
  proof (intro allI impI)
    fix j :: nat assume "j < 3"
    then consider "j = 0" | "j = 1" | "j = 2" by linarith
    then show "\<not> crosses (?st ! j)"
      by cases (simp_all add: crosses_synthetic_stage)
  qed
  have h4: "sorted_wrt (<) (map level ?st)" by (simp add: level_synthetic_stage)
  from breaking_point_first_crossing [of ?st 3] h1 h2 h3
  have "find_breaking_point ?st = Breaking_point 40 30"
    by (simp add: level_synthetic_stage)
  with h1 h2 h3 h4 show ?thesis by (simp add: crosses_synthetic_stage)
qed

section \<open>The fixed-concurrency run\<close>

lemma run_invariant_start: "run_invariant c n 0 (start_state c n)"
  by (simp add: run_invariant_def start_state_def)

lemma run_invariant_step:
  assumes "run_invariant c n k s" and "step s s'"
  shows "run_invariant c n (Suc k) s'"
proof -
  from assms(1) have p: "permits s + length (in_flight s) = c"
    and m: "mset (waiting s) + mset (in_flight s) + mset (completed s) = mset [0..<n]"
    and t: "2 * length (waiting s) + length (in_flight s) + k = 2 * n"
    by (simp_all add: run_invariant_def)
  from assms(2) show ?thesis
  proof cases
    case (acquire i)
    have w: "0 < length (waiting s)" using acquire(2) by (cases "waiting s") auto
    have l: "length (remove1 i (waiting s)) = length (waiting s) - 1"
      using acquire(2) by (simp add: length_remove1)
    have "mset (remove1 i (waiting s)) + mset (i # in_flight s) + mset (completed s)
        = mset (waiting s) + mset (in_flight s) + mset (completed s)"
      using acquire(2) by simp
    then have m': "mset (remove1 i (waiting s)) + mset (i # in_flight s) + mset (completed s)
        = mset [0..<n]"
      using m by simp
    have p': "permits s - 1 + length (i # in_flight s) = c"
      using p acquire(3) by simp
    obtain w' where w': "length (waiting s) = Suc w'"
      using w by (cases "length (waiting s)") auto
    have t': "2 * length (remove1 i (waiting s)) + length (i # in_flight s) + Suc k = 2 * n"
      using t unfolding l w' by simp
    show ?thesis
      unfolding run_invariant_def acquire(1) using p' m' t' by simp
  next
    case (release i)
    have f: "0 < length (in_flight s)" using release(2) by (cases "in_flight s") auto
    have l: "length (remove1 i (in_flight s)) = length (in_flight s) - 1"
      using release(2) by (simp add: length_remove1)
    have "mset (waiting s) + mset (remove1 i (in_flight s)) + mset (completed s @ [i])
        = mset (waiting s) + mset (in_flight s) + mset (completed s)"
      using release(2) by simp
    then have m': "mset (waiting s) + mset (remove1 i (in_flight s)) + mset (completed s @ [i])
        = mset [0..<n]"
      using m by simp
    obtain f' where f': "length (in_flight s) = Suc f'"
      using f by (cases "length (in_flight s)") auto
    have p': "permits s + 1 + length (remove1 i (in_flight s)) = c"
      using p unfolding l f' by simp
    have t': "2 * length (waiting s) + length (remove1 i (in_flight s)) + Suc k = 2 * n"
      using t unfolding l f' by simp
    show ?thesis
      unfolding run_invariant_def release(1) using p' m' t' by simp
  qed
qed

lemma run_invariant_steps:
  "steps k s0 s \<Longrightarrow> s0 = start_state c n \<Longrightarrow> run_invariant c n k s"
  by (induction rule: steps.induct) (auto intro: run_invariant_start run_invariant_step)

lemma run_progress:
  assumes "run_invariant c n k s" and "0 < c" and "k < 2 * n"
  shows "\<exists>s'. step s s'"
proof (cases "in_flight s")
  case (Cons i rest)
  then have "i \<in> set (in_flight s)" by simp
  then show ?thesis by (blast intro: step.release)
next
  case Nil
  with assms have "0 < permits s" "waiting s \<noteq> []"
    by (auto simp: run_invariant_def)
  then obtain i where "i \<in> set (waiting s)" by (cases "waiting s") auto
  with \<open>0 < permits s\<close> show ?thesis by (blast intro: step.acquire)
qed

lemma run_finished:
  assumes "run_invariant c n (2 * n) s"
  shows "waiting s = [] \<and> in_flight s = [] \<and> mset (completed s) = mset [0..<n]"
  using assms by (auto simp: run_invariant_def)

text \<open>
  C7. A run of N requests under a semaphore of value C, with 0 < C \<le> N, starts with N
  coroutines. In every state that the run reaches, whatever the order in which
  coroutines enter and leave the \<open>async with\<close> block, at most C of them are inside it, and
  each of the N coroutines is in exactly one of the three phases. A run has at most 2N
  steps; before the 2N-th step some coroutine can always take a step, so the semaphore
  never blocks the run; and after 2N steps every coroutine has entered the block and
  returned, and the driver holds exactly N results, one per request.
\<close>

theorem fixed_concurrency_run:
  assumes "0 < c" and "c \<le> n"
    and "test_concurrent_start (int c) (Some (int n)) = Inr s0" and "steps k s0 s"
  shows "length (waiting s0) = n \<and> in_flight s0 = [] \<and> completed s0 = []
    \<and> length (in_flight s) \<le> c
    \<and> mset (waiting s) + mset (in_flight s) + mset (completed s) = mset [0..<n]
    \<and> k \<le> 2 * n
    \<and> (k < 2 * n \<longrightarrow> (\<exists>s'. step s s'))
    \<and> (k = 2 * n \<longrightarrow> waiting s = [] \<and> in_flight s = []
          \<and> mset (completed s) = mset [0..<n] \<and> length (results_of env s) = n)"
proof -
  have s0: "s0 = start_state c n"
    using assms(3) by (simp add: test_concurrent_start_def)
  have inv: "run_invariant c n k s"
    using assms(4) s0 by (rule run_invariant_steps)
  have fin: "k = 2 * n \<Longrightarrow> waiting s = [] \<and> in_flight s = []
      \<and> mset (completed s) = mset [0..<n] \<and> length (results_of env s) = n"
  proof -
    assume "k = 2 * n"
    with inv have f: "waiting s = [] \<and> in_flight s = [] \<and> mset (completed s) = mset [0..<n]"
      by (simp add: run_finished)
    then have "length (completed s) = n" by (metis length_upt mset_eq_length minus_nat.diff_0)
    with f show ?thesis by (simp add: results_of_def)
  qed
  show ?thesis
    using inv run_progress [OF inv assms(1)] fin
    by (auto simp: s0 start_state_def run_invariant_def)
qed

lemma step_acquireI:
  assumes "i \<in> set (waiting s)" and "0 < permits s"
    and "s' = \<lparr>waiting = remove1 i (waiting s), in_flight = i # in_flight s,
         completed = completed s, permits = permits s - 1\<rparr>"
  shows "step s s'"
proof -
  have "s' = s\<lparr>waiting := remove1 i (waiting s), in_flight := i # in_flight s,
      permits := permits s - 1\<rparr>"
    unfolding assms(3) by (cases s) simp
  then show ?thesis using step.acquire [OF assms(1,2)] by simp
qed

lemma step_releaseI:
  assumes "i \<in> set (in_flight s)"
    and "s' = \<lparr>waiting = waiting s, in_flight = remove1 i (in_flight s),
         completed = completed s @ [i], permits = permits s + 1\<rparr>"
  shows "step s s'"
proof -
  have "s' = s\<lparr>in_flight := remove1 i (in_flight s), completed := completed s @ [i],
      permits := permits s + 1\<rparr>"
    unfolding assms(2) by (cases s) simp
  then show ?thesis using step.release [OF assms(1)] by simp
qed

lemma example_run:
  "steps 6 (start_state 2 3) \<lparr>waiting = [], in_flight = [], completed = [1, 0, 2], permits = 2\<rparr>"
proof -
  let ?s1 = "\<lparr>waiting = [1, 2], in_flight = [0], completed = [], permits = 1\<rparr>"
  let ?s2 = "\<lparr>waiting = [2], in_flight = [1, 0], completed = [], permits = 0\<rparr>"
  let ?s3 = "\<lparr>waiting = [2], in_flight = [0], completed = [1], permits = 1\<rparr>"
  let ?s4 = "\<lparr>waiting = [], in_flight = [2, 0], completed = [1], permits = 0\<rparr>"
  let ?s5 = "\<lparr>waiting = [], in_flight = [2], completed = [1, 0], permits = 1\<rparr>"
  let ?s6 = "\<lparr>waiting = [], in_flight = [], completed = [1, 0, 2], permits = 2\<rparr>"
  have s0: "start_state 2 3 = \<lparr>waiting = [0, 1, 2], in_flight = [], completed = [], permits = 2\<rparr>"
    by (simp add: start_state_def upt_rec)
  have 1: "step (start_state 2 3) ?s1" unfolding s0 by (rule step_acquireI [of 0]) simp_all
  have 2: "step ?s1 ?s2" by (rule step_acquireI [of 1]) simp_all
  have 3: "step ?s2 ?s3" by (rule step_releaseI [of 1]) simp_all
  have 4: "step ?s3 ?s4" by (rule step_acquireI [of 2]) simp_all
  have 5: "step ?s4 ?s5" by (rule step_releaseI [of 0]) simp_all
  have 6: "step ?s5 ?s6" by (rule step_releaseI [of 2]) simp_all
  have "steps (Suc (Suc (Suc (Suc (Suc (Suc 0)))))) (start_state 2 3) ?s6"
    by (intro steps.one_more [OF _ 6] steps.one_more [OF _ 5] steps.one_more [OF _ 4]
        steps.one_more [OF _ 3] steps.one_more [OF _ 2] steps.one_more [OF _ 1] steps.no_step)
  then show ?thesis by (simp add: eval_nat_numeral)
qed

theorem fixed_concurrency_run_witness:
  "(0::nat) < 2 \<and> (2::nat) \<le> 3
   \<and> test_concurrent_start (int 2) (Some (int 3)) = Inr (start_state 2 3)
   \<and> steps 6 (start_state 2 3) \<lparr>waiting = [], in_flight = [], completed = [1, 0, 2], permits = 2\<rparr>
   \<and> length (waiting (start_state 2 3)) = 3
   \<and> length (results_of steady_environment
        \<lparr>waiting = [], in_flight = [], completed = [1, 0, 2], permits = 2\<rparr>) = 3"
proof -
  have h1: "(0::nat) < 2" and h2: "(2::nat) \<le> 3" by simp_all
  have h3: "test_concurrent_start (int 2) (Some (int 3)) = Inr (start_state 2 3)"
    by (simp add: test_concurrent_start_def)
  from fixed_concurrency_run [OF h1 h2 h3 example_run, of steady_environment] h1 h2 h3 example_run
  show ?thesis by simp
qed

end
